theory Spec2Isabelle
  imports Main
begin

section \<open>Python values used by the forwarding engine\<close>

text \<open>
  A Python \<open>str\<close> is a sequence of Unicode code points: it is modelled as a list of
  natural numbers, one per code point (HOL's \<open>char\<close> has only 8 bits). \<open>ustr\<close> turns
  an ASCII literal into that form. Chat ids are Python's unbounded \<open>int\<close>.
  \<open>ValueError\<close> and \<open>NameError\<close> are the two exceptions the engine's own code raises;
  \<open>ClientError\<close> stands for whatever the Telegram client raises.
\<close>

type_synonym pystr = "nat list"

definition ustr :: "string \<Rightarrow> pystr" where
  "ustr s = map of_char s"

datatype py_error = ValueError | NameError | ClientError

text \<open>
  \<open>int\<close>, \<open>str.lower\<close>, \<open>str.strip\<close> and the classes \<open>\w\<close>, \<open>\s\<close>, \<open>\d\<close> of a \<open>str\<close> pattern
  follow the Unicode character database, which is not part of the repository. Their
  behaviour on ASCII is written out below; the database is a parameter that is
  consulted for the other code points only: which of them are alphanumeric, which are
  whitespace, the value of those that are decimal digits, and the lower-case form of a
  string that is not pure ASCII.
\<close>

record unicode_db =
  uni_word :: "nat \<Rightarrow> bool"
  uni_space :: "nat \<Rightarrow> bool"
  uni_decimal :: "nat \<Rightarrow> nat option"
  uni_lower :: "pystr \<Rightarrow> pystr"

subsection \<open>\<open>str(n)\<close> and \<open>int(s)\<close>\<close>

definition digit_char :: "nat \<Rightarrow> nat" where
  "digit_char d = 48 + d"

fun digits :: "nat \<Rightarrow> pystr" where
  "digits n = (if n < 10 then [digit_char n] else digits (n div 10) @ [digit_char (n mod 10)])"

declare digits.simps [simp del]

text \<open>\<open>str(i)\<close> for an \<open>int\<close>: a minus sign for negative numbers, then the decimal digits.\<close>

definition py_str :: "int \<Rightarrow> pystr" where
  "py_str i = (if i < 0 then 45 # digits (nat (- i)) else digits (nat i))"

text \<open>
  \<open>int(s)\<close> first rewrites the string to ASCII: a code point below 128 stays, another
  whitespace character becomes a space, another decimal digit becomes the ASCII digit
  of its value, and any other code point makes the conversion fail.
\<close>

definition to_ascii :: "unicode_db \<Rightarrow> nat \<Rightarrow> nat option" where
  "to_ascii U c =
     (if c < 128 then Some c
      else if uni_space U c then Some 32
      else case uni_decimal U c of
             None \<Rightarrow> None
           | Some d \<Rightarrow> if d < 10 then Some (48 + d) else None)"

fun ascii_of :: "unicode_db \<Rightarrow> pystr \<Rightarrow> pystr option" where
  "ascii_of U [] = Some []"
| "ascii_of U (c # cs) =
     (case to_ascii U c of
        None \<Rightarrow> None
      | Some a \<Rightarrow> (case ascii_of U cs of None \<Rightarrow> None | Some as \<Rightarrow> Some (a # as)))"

text \<open>Then the ASCII whitespace (tab to carriage return, and space) at both ends is dropped.\<close>

definition int_space :: "nat \<Rightarrow> bool" where
  "int_space c = ((9 \<le> c \<and> c \<le> 13) \<or> c = 32)"

definition strip_ascii :: "pystr \<Rightarrow> pystr" where
  "strip_ascii s = rev (dropWhile int_space (rev (dropWhile int_space s)))"

definition is_digit :: "nat \<Rightarrow> bool" where
  "is_digit c = (48 \<le> c \<and> c \<le> 57)"

definition digit_val :: "nat \<Rightarrow> nat" where
  "digit_val c = c - 48"

text \<open>The value of a digit string, most significant digit first (accumulator \<open>acc\<close>).\<close>

fun digits_val :: "nat \<Rightarrow> pystr \<Rightarrow> nat" where
  "digits_val acc [] = acc"
| "digits_val acc (c # cs) = digits_val (acc * 10 + digit_val c) cs"

text \<open>
  Python's integer literals allow single underscores between digits (\<open>int('1_000') = 1000\<close>):
  the body is non-empty, starts and ends with a digit, and has no two adjacent underscores.
\<close>

fun int_body_ok :: "pystr \<Rightarrow> bool" where
  "int_body_ok [] = False"
| "int_body_ok [c] = is_digit c"
| "int_body_ok (c # d # cs) =
     (is_digit c \<and> (if d = 95 then int_body_ok cs else int_body_ok (d # cs)))"

definition int_body :: "pystr \<Rightarrow> py_error + nat" where
  "int_body s = (if int_body_ok s then Inr (digits_val 0 (filter (\<lambda>c. c \<noteq> 95) s))
                 else Inl ValueError)"

text \<open>
  \<open>int(s)\<close> in base 10: after the rewriting and the stripping, an optional sign, then the
  body; anything else raises \<open>ValueError\<close>.
\<close>

definition py_int :: "unicode_db \<Rightarrow> pystr \<Rightarrow> py_error + int" where
  "py_int U s =
     (case ascii_of U s of
        None \<Rightarrow> Inl ValueError
      | Some a \<Rightarrow>
          (case strip_ascii a of
             [] \<Rightarrow> Inl ValueError
           | c # cs \<Rightarrow>
               if c = 45 then map_sum id (\<lambda>n. - int n) (int_body cs)
               else if c = 43 then map_sum id int (int_body cs)
               else map_sum id int (int_body (c # cs))))"

definition startswith :: "pystr \<Rightarrow> pystr \<Rightarrow> bool" where
  "startswith s p = (take (length p) s = p)"

text \<open>
  \<open>s.lower()\<close>: on a pure ASCII string the letters \<open>A\<close> to \<open>Z\<close> are mapped to \<open>a\<close> to \<open>z\<close>;
  any other string is lowered by the Unicode database.
\<close>

definition lower_char :: "nat \<Rightarrow> nat" where
  "lower_char c = (if 65 \<le> c \<and> c \<le> 90 then c + 32 else c)"

definition py_lower :: "unicode_db \<Rightarrow> pystr \<Rightarrow> pystr" where
  "py_lower U s = (if list_all (\<lambda>c. c < 128) s then map lower_char s else uni_lower U s)"

section \<open>MatchIndex: \<open>check_source_match\<close>\<close>

text \<open>
  The numeric part of \<open>check_source_match\<close> (the body of its \<open>try\<close> after \<open>int(source)\<close>):
  \<open>Inl ValueError\<close> when one of the \<open>int(str(x)[4:])\<close> conversions raises, otherwise
  whether one of the \<open>return True\<close> statements is reached.
\<close>

definition numeric_match :: "unicode_db \<Rightarrow> int \<Rightarrow> int \<Rightarrow> py_error + bool" where
  "numeric_match U chat_id src_num =
     (if chat_id = src_num \<or> \<bar>chat_id\<bar> = \<bar>src_num\<bar> then Inr True
      else
        case (if startswith (py_str src_num) (ustr ''-100'') then
                (case py_int U (drop 4 (py_str src_num)) of
                   Inl e \<Rightarrow> Inl e
                 | Inr src_real \<Rightarrow>
                     (case (if startswith (py_str chat_id) (ustr ''-100'') then
                              (case py_int U (drop 4 (py_str chat_id)) of
                                 Inl e \<Rightarrow> Inl e
                               | Inr chat_real \<Rightarrow> Inr (chat_real = src_real))
                            else Inr False) of
                        Inl e \<Rightarrow> Inl e
                      | Inr True \<Rightarrow> Inr True
                      | Inr False \<Rightarrow> Inr (\<bar>chat_id\<bar> = src_real)))
              else Inr False) of
          Inl e \<Rightarrow> Inl e
        | Inr True \<Rightarrow> Inr True
        | Inr False \<Rightarrow>
            (if startswith (py_str chat_id) (ustr ''-100'') then
               (case py_int U (drop 4 (py_str chat_id)) of
                  Inl e \<Rightarrow> Inl e
                | Inr chat_real \<Rightarrow> Inr (chat_real = \<bar>src_num\<bar>))
             else Inr False))"

text \<open>
  \<open>check_source_match(chat_id, chat_username, source)\<close>. A missing username is \<open>None\<close>;
  \<open>chat_username and ...\<close> is false for \<open>None\<close> and for the empty string. Every
  \<open>ValueError\<close> is caught and the function returns \<open>False\<close>.
\<close>

definition check_source_match :: "unicode_db \<Rightarrow> int \<Rightarrow> pystr option \<Rightarrow> pystr \<Rightarrow> bool" where
  "check_source_match U chat_id chat_username source =
     (if startswith source (ustr ''@'') then
        (case chat_username of
           None \<Rightarrow> False
         | Some u \<Rightarrow> u \<noteq> [] \<and> py_lower U u = py_lower U (drop 1 source))
      else
        case py_int U source of
          Inl e \<Rightarrow> False
        | Inr src_num \<Rightarrow>
            (case numeric_match U chat_id src_num of Inl e \<Rightarrow> False | Inr b \<Rightarrow> b))"

text \<open>
  The \<open>-100\<close> prefix transform of the spec: the channel-id convention writes the real id
  \<open>n\<close> as the integer whose decimal form is \<open>-100\<close> followed by the digits of \<open>n\<close>.
\<close>

definition add_prefix100 :: "nat \<Rightarrow> int" where
  "add_prefix100 n = - int (100 * 10 ^ length (digits n) + n)"

section \<open>Regular expressions as Python's \<open>re\<close> runs them\<close>

text \<open>
  The character classes \<open>\w\<close>, \<open>\s\<close> and \<open>\d\<close> of a \<open>str\<close> pattern: the ASCII part is
  written out, the rest is read from the Unicode database. For the control characters
  outside tab to carriage return the database is consulted as well.
\<close>

definition is_word :: "unicode_db \<Rightarrow> nat \<Rightarrow> bool" where
  "is_word U c =
     (if c < 128 then (48 \<le> c \<and> c \<le> 57) \<or> (65 \<le> c \<and> c \<le> 90) \<or> (97 \<le> c \<and> c \<le> 122) \<or> c = 95
      else uni_word U c)"

definition is_space :: "unicode_db \<Rightarrow> nat \<Rightarrow> bool" where
  "is_space U c =
     (if (9 \<le> c \<and> c \<le> 13) \<or> c = 32 then True
      else if 33 \<le> c \<and> c \<le> 126 then False
      else uni_space U c)"

definition is_decimal :: "unicode_db \<Rightarrow> nat \<Rightarrow> bool" where
  "is_decimal U c = (if c < 128 then 48 \<le> c \<and> c \<le> 57 else uni_decimal U c \<noteq> None)"

definition nonspace :: "unicode_db \<Rightarrow> nat \<Rightarrow> bool" where
  "nonspace U c = (\<not> is_space U c)"

text \<open>
  Every quantifier in the engine's patterns applies to a single character or character
  class, so a pattern is a list of alternatives, each a sequence of items: a character
  class repeated between \<open>lo\<close> and \<open>hi\<close> times (\<open>None\<close>: unbounded), or one of the anchors
  \<open>^\<close> and \<open>$\<close> (in \<open>MULTILINE\<close> mode).
\<close>

datatype item = Rep "nat \<Rightarrow> bool" nat "nat option" | Bol | Eol

definition Lit :: "nat \<Rightarrow> item" where
  "Lit c = Rep (\<lambda>x. x = c) 1 (Some 1)"

definition Plus :: "(nat \<Rightarrow> bool) \<Rightarrow> item" where
  "Plus p = Rep p 1 None"

definition Opt :: "nat \<Rightarrow> item" where
  "Opt c = Rep (\<lambda>x. x = c) 0 (Some 1)"

definition lits :: "string \<Rightarrow> item list" where
  "lits s = map Lit (ustr s)"

text \<open>
  A matcher state is the text still to be read together with a flag telling whether the
  position is at the start of a line (start of the text, or just after a newline). The
  matcher returns the states in which a match can end, in the order in which Python's
  backtracking engine finds them: a greedy repetition first takes one more character,
  and only then tries to stop.
\<close>

type_synonym mstate = "bool \<times> pystr"

fun rep :: "(nat \<Rightarrow> bool) \<Rightarrow> nat \<Rightarrow> nat option \<Rightarrow> bool \<Rightarrow> pystr \<Rightarrow> mstate list" where
  "rep p lo hi b [] = (if lo = 0 then [(b, [])] else [])"
| "rep p lo hi b (c # cs) =
     (if p c \<and> hi \<noteq> Some 0 then rep p (lo - 1) (map_option (\<lambda>h. h - 1) hi) (c = 10) cs else [])
     @ (if lo = 0 then [(b, c # cs)] else [])"

fun m_item :: "item \<Rightarrow> mstate \<Rightarrow> mstate list" where
  "m_item (Rep p lo hi) (b, s) = rep p lo hi b s"
| "m_item Bol (b, s) = (if b then [(b, s)] else [])"
| "m_item Eol (b, s) = (if s = [] \<or> hd s = 10 then [(b, s)] else [])"

fun m_seq :: "item list \<Rightarrow> mstate \<Rightarrow> mstate list" where
  "m_seq [] st = [st]"
| "m_seq (it # its) st = concat (map (m_seq its) (m_item it st))"

definition m_alt :: "item list list \<Rightarrow> mstate \<Rightarrow> mstate list" where
  "m_alt alts st = concat (map (\<lambda>a. m_seq a st) alts)"

text \<open>The match Python reports at a position is the first one the backtracking finds.\<close>

definition first_match :: "item list list \<Rightarrow> mstate \<Rightarrow> mstate option" where
  "first_match alts st = (case m_alt alts st of [] \<Rightarrow> None | x # _ \<Rightarrow> Some x)"

text \<open>
  \<open>re.sub(pattern, repl, s)\<close>: scan from the left; at a position with a match, emit the
  replacement and continue after the match, otherwise copy one character. None of the
  patterns below matches the empty string, so a match always consumes text; the guard
  on the length makes that explicit and treats an empty match as no match.
\<close>

function re_sub :: "item list list \<Rightarrow> pystr \<Rightarrow> bool \<Rightarrow> pystr \<Rightarrow> pystr" where
  "re_sub pat repl b s =
     (case first_match pat (b, s) of
        Some (b', r) \<Rightarrow>
          if length r < length s then repl @ re_sub pat repl b' r
          else (case s of [] \<Rightarrow> [] | c # cs \<Rightarrow> c # re_sub pat repl (c = 10) cs)
      | None \<Rightarrow> (case s of [] \<Rightarrow> [] | c # cs \<Rightarrow> c # re_sub pat repl (c = 10) cs))"
  by pat_completeness auto
termination
  by (relation "measure (\<lambda>(pat, repl, b, s). length s)") auto

declare re_sub.simps [simp del]

text \<open>\<open>re.search(pattern, s)\<close> as a truth value: is there a match at some position?\<close>

fun re_search :: "item list list \<Rightarrow> bool \<Rightarrow> pystr \<Rightarrow> bool" where
  "re_search pat b [] = (m_alt pat (b, []) \<noteq> [])"
| "re_search pat b (c # cs) = (m_alt pat (b, c # cs) \<noteq> [] \<or> re_search pat (c = 10) cs)"

text \<open>\<open>s.strip()\<close>: whitespace removed at both ends.\<close>

definition py_strip :: "unicode_db \<Rightarrow> pystr \<Rightarrow> pystr" where
  "py_strip U s = rev (dropWhile (is_space U) (rev (dropWhile (is_space U) s)))"

section \<open>ContentTransformer: the cleaning stages of \<open>forward_handler\<close>\<close>

text \<open>The patterns, in the order of the source (lines 902--1012).\<close>

definition pat_hashtag :: "unicode_db \<Rightarrow> item list list" where
  "pat_hashtag U = [[Lit 35, Plus (is_word U)]]"

definition pat_mention :: "unicode_db \<Rightarrow> item list list" where
  "pat_mention U = [[Lit 64, Plus (is_word U)]]"

definition pat_link1 :: "unicode_db \<Rightarrow> item list list" where
  "pat_link1 U = [lits ''http'' @ [Opt 115] @ lits ''://'' @ [Plus (nonspace U)]]"

definition pat_link2 :: "unicode_db \<Rightarrow> item list list" where
  "pat_link2 U = [lits ''htt'' @ [Opt 112] @ lits ''://'' @ [Plus (nonspace U)]]"

definition pat_link3 :: "unicode_db \<Rightarrow> item list list" where
  "pat_link3 U = [lits ''www.'' @ [Plus (nonspace U)]]"

definition pat_link4 :: "unicode_db \<Rightarrow> item list list" where
  "pat_link4 U = [lits ''t.me/'' @ [Plus (nonspace U)]]"

definition pat_link5 :: "unicode_db \<Rightarrow> item list list" where
  "pat_link5 U = [lits ''tg://'' @ [Plus (nonspace U)]]"

text \<open>The emoji character class, range by range as in the source.\<close>

definition is_emoji :: "nat \<Rightarrow> bool" where
  "is_emoji c =
     ((0x1F600 \<le> c \<and> c \<le> 0x1F64F) \<or> (0x1F300 \<le> c \<and> c \<le> 0x1F5FF) \<or>
      (0x1F680 \<le> c \<and> c \<le> 0x1F6FF) \<or> (0x1F700 \<le> c \<and> c \<le> 0x1F77F) \<or>
      (0x1F780 \<le> c \<and> c \<le> 0x1F7FF) \<or> (0x1F800 \<le> c \<and> c \<le> 0x1F8FF) \<or>
      (0x1F900 \<le> c \<and> c \<le> 0x1F9FF) \<or> (0x1FA00 \<le> c \<and> c \<le> 0x1FA6F) \<or>
      (0x1FA70 \<le> c \<and> c \<le> 0x1FAFF) \<or> (0x2702 \<le> c \<and> c \<le> 0x27B0) \<or>
      (0x1F1E0 \<le> c \<and> c \<le> 0x1F1FF) \<or> (0x2600 \<le> c \<and> c \<le> 0x26FF) \<or>
      (0x2700 \<le> c \<and> c \<le> 0x27BF) \<or> (0x1F000 \<le> c \<and> c \<le> 0x1F02F) \<or>
      (0x1F0A0 \<le> c \<and> c \<le> 0x1F0FF) \<or> (0xFE00 \<le> c \<and> c \<le> 0xFE0F) \<or>
      (0xFE0E \<le> c \<and> c \<le> 0xFE0F) \<or> c = 0x200D \<or>
      (0x2640 \<le> c \<and> c \<le> 0x2642) \<or> (0x23E9 \<le> c \<and> c \<le> 0x23F3) \<or>
      (0x23F8 \<le> c \<and> c \<le> 0x23FA) \<or> c = 0x2B50 \<or> c = 0x2B55 \<or>
      (0x2934 \<le> c \<and> c \<le> 0x2935) \<or> (0x2B05 \<le> c \<and> c \<le> 0x2B07) \<or>
      (0x2B1B \<le> c \<and> c \<le> 0x2B1C) \<or> c = 0x3030 \<or> c = 0x303D \<or>
      c = 0x3297 \<or> c = 0x3299 \<or> (0x24C2 \<le> c \<and> c \<le> 0x1F251) \<or>
      (0x2500 \<le> c \<and> c \<le> 0x2BEF) \<or> (0x231A \<le> c \<and> c \<le> 0x231B) \<or>
      (0x25AA \<le> c \<and> c \<le> 0x25AB) \<or> c = 0x25B6 \<or> c = 0x25C0 \<or>
      (0x25FB \<le> c \<and> c \<le> 0x25FE) \<or> c = 0x2764 \<or> c = 0x2763 \<or> c = 0x2665 \<or>
      (0x1F493 \<le> c \<and> c \<le> 0x1F49F) \<or> c = 0x2714 \<or> c = 0x2716 \<or>
      (0x270A \<le> c \<and> c \<le> 0x270D) \<or> c = 0x23CF \<or>
      (0x23ED \<le> c \<and> c \<le> 0x23EF) \<or> (0x23F1 \<le> c \<and> c \<le> 0x23F2) \<or>
      (0x200B \<le> c \<and> c \<le> 0x200F) \<or> (0x2028 \<le> c \<and> c \<le> 0x202F) \<or>
      (0x205F \<le> c \<and> c \<le> 0x206F))"

definition pat_emoji :: "item list list" where
  "pat_emoji = [[Plus is_emoji]]"

text \<open>The separator class \<open>[-.\s]\<close> of the phone pattern.\<close>

definition is_sep :: "unicode_db \<Rightarrow> nat \<Rightarrow> bool" where
  "is_sep U c = (c = 45 \<or> c = 46 \<or> is_space U c)"

definition pat_phone1 :: "unicode_db \<Rightarrow> item list list" where
  "pat_phone1 U =
     [[Opt 43, Rep (is_decimal U) 1 (Some 4), Rep (is_sep U) 0 (Some 1), Opt 40,
       Rep (is_decimal U) 1 (Some 3), Opt 41, Rep (is_sep U) 0 (Some 1),
       Rep (is_decimal U) 1 (Some 4), Rep (is_sep U) 0 (Some 1),
       Rep (is_decimal U) 1 (Some 4), Rep (is_sep U) 0 (Some 1),
       Rep (is_decimal U) 1 (Some 9)]]"

definition pat_phone2 :: "unicode_db \<Rightarrow> item list list" where
  "pat_phone2 U = [[Opt 43, Rep (is_decimal U) 10 (Some 15)]]"

text \<open>The classes \<open>[\w.+-]\<close>, \<open>[\w-]\<close> and \<open>[\w.-]\<close> of the email pattern.\<close>

definition is_local :: "unicode_db \<Rightarrow> nat \<Rightarrow> bool" where
  "is_local U c = (is_word U c \<or> c = 46 \<or> c = 43 \<or> c = 45)"

definition is_domain :: "unicode_db \<Rightarrow> nat \<Rightarrow> bool" where
  "is_domain U c = (is_word U c \<or> c = 45)"

definition is_tld :: "unicode_db \<Rightarrow> nat \<Rightarrow> bool" where
  "is_tld U c = (is_word U c \<or> c = 46 \<or> c = 45)"

definition pat_email :: "unicode_db \<Rightarrow> item list list" where
  "pat_email U =
     [[Plus (is_local U), Lit 64, Plus (is_domain U), Lit 46, Plus (is_tld U)]]"

text \<open>The whitespace clean-up after the stages.\<close>

definition pat_spaces :: "item list list" where
  "pat_spaces = [[Plus (\<lambda>c. c = 32 \<or> c = 9)]]"

definition pat_line_trim :: "item list list" where
  "pat_line_trim = [[Bol, Plus (\<lambda>c. c = 32)], [Plus (\<lambda>c. c = 32), Eol]]"

definition pat_newlines :: "item list list" where
  "pat_newlines = [[Rep (\<lambda>c. c = 10) 3 None]]"

text \<open>Each cleaning stage on its own: what the stage does to \<open>filtered_text\<close> when enabled.\<close>

definition strip_hashtags :: "unicode_db \<Rightarrow> pystr \<Rightarrow> pystr" where
  "strip_hashtags U t = re_sub (pat_hashtag U) [] True t"

definition strip_mentions :: "unicode_db \<Rightarrow> pystr \<Rightarrow> pystr" where
  "strip_mentions U t = re_sub (pat_mention U) [] True t"

definition strip_links :: "unicode_db \<Rightarrow> pystr \<Rightarrow> pystr" where
  "strip_links U t =
     re_sub (pat_link5 U) [] True
       (re_sub (pat_link4 U) [] True
         (re_sub (pat_link3 U) [] True
           (re_sub (pat_link2 U) [] True
             (re_sub (pat_link1 U) [] True t))))"

definition strip_emojis :: "pystr \<Rightarrow> pystr" where
  "strip_emojis t = re_sub pat_emoji [] True t"

definition strip_phones :: "unicode_db \<Rightarrow> pystr \<Rightarrow> pystr" where
  "strip_phones U t = re_sub (pat_phone2 U) [] True (re_sub (pat_phone1 U) [] True t)"

definition strip_emails :: "unicode_db \<Rightarrow> pystr \<Rightarrow> pystr" where
  "strip_emails U t = re_sub (pat_email U) [] True t"

definition normalize_ws :: "unicode_db \<Rightarrow> pystr \<Rightarrow> pystr" where
  "normalize_ws U t =
     py_strip U
       (re_sub pat_newlines [10, 10] True
         (re_sub pat_line_trim [] True
           (re_sub pat_spaces [32] True t)))"

text \<open>
  A rule's \<open>filters\<close> dictionary; \<open>filters.get(key, False)\<close> is \<open>flag\<close>.
\<close>

type_synonym filters = "string \<rightharpoonup> bool"

definition flag :: "filters \<Rightarrow> string \<Rightarrow> bool" where
  "flag fs k = (case fs k of Some v \<Rightarrow> v | None \<Rightarrow> False)"

text \<open>
  The caption cleaning of \<open>forward_handler\<close>: from \<open>original_text\<close> to the final
  \<open>filtered_text\<close> (stored as \<open>caption_text\<close>). The hashtag stage alone is also guarded by
  \<open>filtered_text\<close> being non-empty.
\<close>

definition clean_text :: "unicode_db \<Rightarrow> filters \<Rightarrow> pystr \<Rightarrow> pystr" where
  "clean_text U fs original_text =
     (let t0 = (if flag fs ''clean_caption'' \<and> original_text \<noteq> [] then [] else original_text);
          t1 = (if flag fs ''clean_hashtag'' \<and> t0 \<noteq> [] then strip_hashtags U t0 else t0);
          t2 = (if flag fs ''clean_mention'' then strip_mentions U t1 else t1);
          t3 = (if flag fs ''clean_link'' then strip_links U t2 else t2);
          t4 = (if flag fs ''clean_emoji'' then strip_emojis t3 else t3);
          t5 = (if flag fs ''clean_phone'' then strip_phones U t4 else t4);
          t6 = (if flag fs ''clean_email'' then strip_emails U t5 else t5)
      in normalize_ws U t6)"

section \<open>Messages, rules and the Telegram client\<close>

text \<open>
  An incoming message, with the attributes \<open>forward_handler\<close> probes. An attribute the
  code only tests for truth (\<open>msg.photo\<close>, \<open>msg.voice\<close>, ...) is a \<open>bool\<close>; \<open>msg.message\<close>
  and \<open>msg.text\<close> are the empty string when absent (the field \<open>msg_text\<close> is \<open>msg.text\<close>);
  \<open>entities\<close> lists the class of each entity.
\<close>

datatype entity_kind =
  MessageEntityUrl | MessageEntityTextUrl | MessageEntityCustomEmoji | OtherEntity

record incoming_message =
  msg_id :: nat
  message :: pystr
  msg_text :: pystr
  photo :: bool
  video_note :: bool
  video :: bool
  voice :: bool
  audio :: bool
  sticker :: bool
  gif :: bool
  document :: bool
  poll :: bool
  grouped_id :: "int option"
  forward :: bool
  reply_to :: bool
  entities :: "entity_kind list"
  reply_markup :: bool
  media :: bool
  web_preview :: bool

text \<open>
  The \<open>modify\<close> settings of a rule that concern word lists (\<open>DEFAULT_MODIFY\<close>), and a rule
  as \<open>get_rules_by_phone\<close> returns it.
\<close>

record modify_settings =
  block_words_enabled :: bool
  block_words :: "pystr list"
  whitelist_enabled :: bool
  whitelist_words :: "pystr list"

record rule =
  rule_id :: int
  source_list :: "pystr list"
  dest_list :: "pystr list"
  forward_mode :: string
  filters :: filters
  modify :: modify_settings

text \<open>What the event gives the handler: \<open>event.chat_id\<close>, the chat's username, the message.\<close>

record event =
  chat_id :: int
  chat_username :: "pystr option"
  ev_message :: incoming_message

datatype entity = Entity int

type_synonym path = pystr

text \<open>How a downloaded file is re-sent: the branch of the copy-mode upload that ran.\<close>

datatype file_kind =
  AsPhoto | AsVideoNote | AsVoice | AsVideo | AsGif | AsSticker | AsAudio | AsDocument
  | AsOther | AsAlbum

text \<open>
  The Telegram client and the outside world. The world is a state \<open>'w\<close> that every call
  may change; a call either returns or raises. \<open>resolve_dest\<close> is the closure of the
  source: it catches every exception itself and returns an entity or \<open>None\<close>.
  \<open>send_file\<close> takes the files, the kind of upload and the caption (\<open>None\<close>: no caption
  argument); \<open>send_message\<close> takes the text and the \<open>link_preview\<close> flag. The entity
  cache of \<open>resolve_dest\<close> is part of the world; the media attributes and formatting
  entities passed along with a file or a text are not represented.
\<close>

record 'w client =
  resolve_dest :: "pystr \<Rightarrow> 'w \<Rightarrow> entity option \<times> 'w"
  download_media :: "incoming_message \<Rightarrow> 'w \<Rightarrow> (py_error + path option) \<times> 'w"
  send_file :: "entity \<Rightarrow> path list \<Rightarrow> file_kind \<Rightarrow> pystr option \<Rightarrow> 'w \<Rightarrow> (py_error + unit) \<times> 'w"
  send_message :: "entity \<Rightarrow> pystr \<Rightarrow> bool \<Rightarrow> 'w \<Rightarrow> (py_error + unit) \<times> 'w"
  forward_messages :: "entity \<Rightarrow> incoming_message list \<Rightarrow> 'w \<Rightarrow> (py_error + unit) \<times> 'w"

text \<open>A delivery is a client call that sent something and returned without raising.\<close>

datatype delivery =
  Forwarded entity "incoming_message list"
  | SentMessage entity pystr bool
  | SentFile entity "path list" file_kind "pystr option"

text \<open>An album buffer: one entry of \<open>album_cache\<close>.\<close>

record album_data =
  messages :: "incoming_message list"
  album_dest_list :: "pystr list"
  album_rule :: rule
  caption_text :: pystr

text \<open>
  The state of one account's handler: the world, \<open>album_cache\<close>, the flush callbacks
  scheduled with \<open>call_later\<close> and not yet run (by grouped id, oldest first), the
  \<open>forward_count\<close> column of the rule table, and the deliveries made so far.
\<close>

record 'w state =
  world :: 'w
  album_cache :: "int \<rightharpoonup> album_data"
  timers :: "int list"
  forward_count :: "int \<Rightarrow> nat"
  deliveries :: "delivery list"

text \<open>The progress of one dispatch pass over a rule's destinations.\<close>

record 'w pass =
  p_world :: 'w
  p_deliveries :: "delivery list"
  success_count :: nat

section \<open>FilterEvaluator\<close>

text \<open>\<open>msg.message or msg.text or ""\<close>.\<close>

definition caption_of :: "incoming_message \<Rightarrow> pystr" where
  "caption_of msg = (if message msg \<noteq> [] then message msg else msg_text msg)"

definition has_caption :: "incoming_message \<Rightarrow> bool" where
  "has_caption msg = (message msg \<noteq> [] \<or> msg_text msg \<noteq> [])"

text \<open>The classification of the message kind, in the source's order.\<close>

definition msg_type :: "incoming_message \<Rightarrow> string option" where
  "msg_type msg =
     (if photo msg then Some ''photo''
      else if video_note msg then Some ''video_note''
      else if video msg then Some ''video''
      else if voice msg then Some ''voice''
      else if audio msg then Some ''audio''
      else if sticker msg then Some ''sticker''
      else if gif msg then Some ''gif''
      else if document msg then Some ''document''
      else if poll msg then Some ''poll''
      else if msg_text msg \<noteq> [] \<or> message msg \<noteq> [] then Some ''text''
      else None)"

text \<open>\<open>if msg.grouped_id\<close>: the id is present and not zero.\<close>

definition grouped :: "incoming_message \<Rightarrow> int option" where
  "grouped msg = (case grouped_id msg of None \<Rightarrow> None | Some g \<Rightarrow> if g = 0 then None else Some g)"

text \<open>The pattern of the link filter, \<open>https?://|www\.|t\.me/|tg://\<close>.\<close>

definition pat_has_link :: "item list list" where
  "pat_has_link =
     [lits ''http'' @ [Opt 115] @ lits ''://'', lits ''www.'', lits ''t.me/'', lits ''tg://'']"

definition has_links :: "incoming_message \<Rightarrow> bool" where
  "has_links msg =
     (re_search pat_has_link True (caption_of msg)
      \<or> list_ex (\<lambda>ent. ent = MessageEntityUrl \<or> ent = MessageEntityTextUrl) (entities msg))"

definition has_custom_emoji :: "incoming_message \<Rightarrow> bool" where
  "has_custom_emoji msg = list_ex (\<lambda>ent. ent = MessageEntityCustomEmoji) (entities msg)"

text \<open>
  What \<open>forward_handler\<close> decides for a message that matched a rule, before any cleaning:
  skip it (\<open>continue\<close>), buffer it as an album member, or go on to transformation and
  dispatch. The checks are in the order of the source.
\<close>

datatype decision = Skip | Album int | Dispatch

definition filter_decision :: "filters \<Rightarrow> incoming_message \<Rightarrow> decision" where
  "filter_decision fs msg =
     (if photo msg \<and> flag fs ''photo_only'' \<and> \<not> has_caption msg then Skip
      else if photo msg \<and> flag fs ''photo_with_text'' \<and> has_caption msg then Skip
      else if poll msg \<and> flag fs ''poll'' then Skip
      else if grouped msg \<noteq> None \<and> flag fs ''album'' then Skip
      else case grouped msg of
        Some g \<Rightarrow> Album g
      | None \<Rightarrow>
          if forward msg \<and> flag fs ''forward'' then Skip
          else if reply_to msg \<and> flag fs ''reply'' then Skip
          else if flag fs ''link'' \<and> has_links msg then Skip
          else if reply_markup msg \<and> flag fs ''button'' then Skip
          else if flag fs ''emoji'' \<and> has_custom_emoji msg then Skip
          else if (case msg_type msg of Some k \<Rightarrow> flag fs k | None \<Rightarrow> False) then Skip
          else Dispatch)"

section \<open>AlbumAggregator\<close>

text \<open>
  The album branch of \<open>forward_handler\<close>, run under \<open>album_lock\<close>: the first member of a
  group creates the buffer and schedules the one flush callback; a later member is
  appended and overwrites the caption when it carries one.
\<close>

definition album_add :: "int \<Rightarrow> incoming_message \<Rightarrow> rule \<Rightarrow> 'w state \<Rightarrow> 'w state" where
  "album_add g msg r st =
     (case album_cache st g of
        None \<Rightarrow>
          st\<lparr>album_cache := (album_cache st)(g \<mapsto>
                \<lparr>messages = [msg], album_dest_list = dest_list r, album_rule = r,
                 caption_text = caption_of msg\<rparr>),
             timers := timers st @ [g]\<rparr>
      | Some a \<Rightarrow>
          st\<lparr>album_cache := (album_cache st)(g \<mapsto>
                a\<lparr>messages := messages a @ [msg],
                  caption_text := (if caption_of msg \<noteq> [] then caption_of msg
                                   else caption_text a)\<rparr>)\<rparr>)"

text \<open>
  The download loop of the album copy mode: an exception leaves the loop; a download
  that returns nothing is skipped.
\<close>

fun download_all ::
  "'w client \<Rightarrow> incoming_message list \<Rightarrow> path list \<Rightarrow> 'w \<Rightarrow> (py_error + path list) \<times> 'w" where
  "download_all cl [] files w = (Inr files, w)"
| "download_all cl (m # ms) files w =
     (case download_media cl m w of
        (Inl e, w') \<Rightarrow> (Inl e, w')
      | (Inr None, w') \<Rightarrow> download_all cl ms files w'
      | (Inr (Some f), w') \<Rightarrow> download_all cl ms (files @ [f]) w')"

text \<open>
  One destination of an album: the body of the \<open>for dest in dest_list\<close> loop of
  \<open>send_album_group\<close>. Every exception is caught and logged; nothing is counted.
\<close>

definition album_deliver ::
  "'w client \<Rightarrow> incoming_message list \<Rightarrow> string \<Rightarrow> pystr \<Rightarrow> pystr \<Rightarrow> 'w state \<Rightarrow> 'w state" where
  "album_deliver cl msgs mode caption dest st =
     (case resolve_dest cl dest (world st) of
        (None, w) \<Rightarrow> st\<lparr>world := w\<rparr>
      | (Some e, w) \<Rightarrow>
          if mode = ''copy'' then
            (case download_all cl msgs [] w of
               (Inl err, w1) \<Rightarrow> st\<lparr>world := w1\<rparr>
             | (Inr files, w1) \<Rightarrow>
                 if files = [] then st\<lparr>world := w1\<rparr>
                 else
                   (case send_file cl e files AsAlbum
                           (if caption \<noteq> [] then Some caption else None) w1 of
                      (Inl err, w2) \<Rightarrow> st\<lparr>world := w2\<rparr>
                    | (Inr u, w2) \<Rightarrow>
                        st\<lparr>world := w2,
                           deliveries := deliveries st @
                             [SentFile e files AsAlbum
                                (if caption \<noteq> [] then Some caption else None)]\<rparr>))
          else
            (case forward_messages cl e msgs w of
               (Inl err, w1) \<Rightarrow> st\<lparr>world := w1\<rparr>
             | (Inr u, w1) \<Rightarrow>
                 st\<lparr>world := w1, deliveries := deliveries st @ [Forwarded e msgs]\<rparr>))"

text \<open>The dispatch pass of an album: all destinations in turn.\<close>

definition album_pass ::
  "'w client \<Rightarrow> incoming_message list \<Rightarrow> string \<Rightarrow> pystr \<Rightarrow> pystr list \<Rightarrow> 'w state \<Rightarrow> 'w state" where
  "album_pass cl msgs mode caption dests st =
     foldl (\<lambda>s d. album_deliver cl msgs mode caption d s) st dests"

text \<open>
  \<open>send_album_group(grouped_id)\<close>, the flush: under the lock, return if the buffer is
  gone; otherwise pop it and dispatch its messages with its caption, destinations and
  rule.
\<close>

definition send_album_group :: "'w client \<Rightarrow> int \<Rightarrow> 'w state \<Rightarrow> 'w state" where
  "send_album_group cl g st =
     (case album_cache st g of
        None \<Rightarrow> st
      | Some a \<Rightarrow>
          (let st1 = st\<lparr>album_cache := (album_cache st)(g := None)\<rparr>
           in if messages a = [] then st1
              else album_pass cl (messages a) (forward_mode (album_rule a)) (caption_text a)
                     (album_dest_list a) st1))"

text \<open>The event loop runs the oldest scheduled flush callback.\<close>

definition fire_timer :: "'w client \<Rightarrow> 'w state \<Rightarrow> 'w state" where
  "fire_timer cl st =
     (case timers st of
        [] \<Rightarrow> st
      | g # gs \<Rightarrow> send_album_group cl g (st\<lparr>timers := gs\<rparr>))"

section \<open>DispatchCoordinator\<close>

definition is_only_web_preview :: "incoming_message \<Rightarrow> bool" where
  "is_only_web_preview msg =
     (web_preview msg \<and> \<not> photo msg \<and> \<not> video msg \<and> \<not> document msg \<and> \<not> audio msg
      \<and> \<not> voice msg \<and> \<not> sticker msg \<and> \<not> gif msg \<and> \<not> video_note msg)"

text \<open>The branch of the copy-mode upload, in the source's order.\<close>

definition upload_kind :: "incoming_message \<Rightarrow> file_kind" where
  "upload_kind msg =
     (if photo msg then AsPhoto
      else if video_note msg then AsVideoNote
      else if voice msg then AsVoice
      else if video msg then AsVideo
      else if gif msg then AsGif
      else if sticker msg then AsSticker
      else if audio msg then AsAudio
      else if document msg then AsDocument
      else AsOther)"

text \<open>Video notes, voice notes and stickers are sent without the caption arguments.\<close>

definition upload_caption :: "file_kind \<Rightarrow> pystr \<Rightarrow> pystr option" where
  "upload_caption k caption =
     (if k = AsVideoNote \<or> k = AsVoice \<or> k = AsSticker then None
      else if caption \<noteq> [] then Some caption else None)"

text \<open>
  The upload of a downloaded file (the inner \<open>try\<close> of the copy mode). After a voice
  note, a non-empty \<open>original_text\<close> leads to the \<open>send_message\<close> call whose argument
  \<open>original_entities\<close> is a name bound nowhere in the program: evaluating it raises
  \<open>NameError\<close> before the call is made. \<open>success_count\<close> is incremented only when the
  end of the \<open>try\<close> body is reached.
\<close>

definition upload ::
  "'w client \<Rightarrow> incoming_message \<Rightarrow> pystr \<Rightarrow> pystr \<Rightarrow> entity \<Rightarrow> path \<Rightarrow> 'w pass
     \<Rightarrow> (py_error + unit) \<times> 'w pass" where
  "upload cl msg caption original_text e f p =
     (let k = upload_kind msg
      in case send_file cl e [f] k (upload_caption k caption) (p_world p) of
           (Inl err, w) \<Rightarrow> (Inl err, p\<lparr>p_world := w\<rparr>)
         | (Inr u, w) \<Rightarrow>
             (let p1 = p\<lparr>p_world := w,
                         p_deliveries := p_deliveries p @ [SentFile e [f] k (upload_caption k caption)]\<rparr>
              in if k = AsVoice \<and> original_text \<noteq> [] then (Inl NameError, p1)
                 else (Inr (), p1\<lparr>success_count := success_count p1 + 1\<rparr>)))"

text \<open>A \<open>send_message\<close> call that counts as a success when it returns.\<close>

definition send_text ::
  "'w client \<Rightarrow> entity \<Rightarrow> pystr \<Rightarrow> bool \<Rightarrow> bool \<Rightarrow> 'w pass \<Rightarrow> (py_error + unit) \<times> 'w pass" where
  "send_text cl e txt link_preview counted p =
     (case send_message cl e txt link_preview (p_world p) of
        (Inl err, w) \<Rightarrow> (Inl err, p\<lparr>p_world := w\<rparr>)
      | (Inr u, w) \<Rightarrow>
          (Inr (), p\<lparr>p_world := w,
                     p_deliveries := p_deliveries p @ [SentMessage e txt link_preview],
                     success_count := success_count p + (if counted then 1 else 0)\<rparr>))"

text \<open>
  The body of the copy-mode \<open>try\<close> for one resolved destination. \<open>Inl\<close> is the exception
  that the \<open>except Exception as copy_err\<close> clause then catches.
\<close>

definition copy_body ::
  "'w client \<Rightarrow> incoming_message \<Rightarrow> pystr \<Rightarrow> pystr \<Rightarrow> bool \<Rightarrow> entity \<Rightarrow> 'w pass
     \<Rightarrow> (py_error + unit) \<times> 'w pass" where
  "copy_body cl msg caption original_text remove_link_preview e p =
     (let has_web_preview = (web_preview msg \<and> \<not> remove_link_preview)
      in if media msg then
           if is_only_web_preview msg then
             send_text cl e caption (\<not> remove_link_preview) True p
           else
             (case download_media cl msg (p_world p) of
                (Inl err, w) \<Rightarrow> (Inl err, p\<lparr>p_world := w\<rparr>)
              | (Inr None, w) \<Rightarrow>
                  if caption \<noteq> [] then send_text cl e caption has_web_preview False (p\<lparr>p_world := w\<rparr>)
                  else (Inr (), p\<lparr>p_world := w\<rparr>)
              | (Inr (Some f), w) \<Rightarrow> upload cl msg caption original_text e f (p\<lparr>p_world := w\<rparr>))
         else if caption \<noteq> [] then send_text cl e caption (\<not> remove_link_preview) True p
         else (Inr (), p))"

text \<open>
  One destination of a single message: the body of the \<open>for dest in dest_list\<close> loop of
  \<open>forward_handler\<close>. An unresolved destination is skipped; every exception is caught,
  in copy mode by the inner \<open>except\<close>, in forward mode by the outer one. The message
  handed to \<open>forward_messages\<close> is written as a list of one.
\<close>

definition deliver_one ::
  "'w client \<Rightarrow> string \<Rightarrow> incoming_message \<Rightarrow> pystr \<Rightarrow> pystr \<Rightarrow> bool \<Rightarrow> pystr \<Rightarrow> 'w pass
     \<Rightarrow> 'w pass" where
  "deliver_one cl mode msg caption original_text remove_link_preview dest p =
     (case resolve_dest cl dest (p_world p) of
        (None, w) \<Rightarrow> p\<lparr>p_world := w\<rparr>
      | (Some e, w) \<Rightarrow>
          if mode = ''copy'' then
            snd (copy_body cl msg caption original_text remove_link_preview e (p\<lparr>p_world := w\<rparr>))
          else
            (case forward_messages cl e [msg] w of
               (Inl err, w1) \<Rightarrow> p\<lparr>p_world := w1\<rparr>
             | (Inr u, w1) \<Rightarrow>
                 p\<lparr>p_world := w1,
                   p_deliveries := p_deliveries p @ [Forwarded e [msg]],
                   success_count := success_count p + 1\<rparr>))"

definition dispatch ::
  "'w client \<Rightarrow> string \<Rightarrow> incoming_message \<Rightarrow> pystr \<Rightarrow> pystr \<Rightarrow> bool \<Rightarrow> pystr list \<Rightarrow> 'w pass
     \<Rightarrow> 'w pass" where
  "dispatch cl mode msg caption original_text remove_link_preview dests p =
     foldl (\<lambda>q d. deliver_one cl mode msg caption original_text remove_link_preview d q) p dests"

text \<open>\<open>increment_forward_count(rule_id)\<close>: the update of the rule table, taken to go through.\<close>

definition increment_forward_count :: "int \<Rightarrow> 'w state \<Rightarrow> 'w state" where
  "increment_forward_count rid st =
     st\<lparr>forward_count := (forward_count st)(rid := forward_count st rid + 1)\<rparr>"

section \<open>\<open>forward_handler\<close>\<close>

text \<open>
  The body of the loop over the rules, for one rule: source match, filters, the album
  branch, cleaning, the dispatch pass over the destinations, and the counter.
\<close>

definition process_rule :: "'w client \<Rightarrow> unicode_db \<Rightarrow> event \<Rightarrow> rule \<Rightarrow> 'w state \<Rightarrow> 'w state" where
  "process_rule cl U ev r st =
     (let msg = ev_message ev
      in if \<not> list_ex (check_source_match U (chat_id ev) (chat_username ev)) (source_list r) then st
         else case filter_decision (filters r) msg of
           Skip \<Rightarrow> st
         | Album g \<Rightarrow> album_add g msg r st
         | Dispatch \<Rightarrow>
             (let original_text = caption_of msg;
                  caption = clean_text U (filters r) original_text;
                  remove_link_preview = flag (filters r) ''clean_link'';
                  p = dispatch cl (forward_mode r) msg caption original_text remove_link_preview
                        (dest_list r)
                        \<lparr>p_world = world st, p_deliveries = deliveries st, success_count = 0\<rparr>;
                  st1 = st\<lparr>world := p_world p, deliveries := p_deliveries p\<rparr>
              in if success_count p > 0 then increment_forward_count (rule_id r) st1 else st1))"

text \<open>\<open>forward_handler(event)\<close> over the enabled rules of the account.\<close>

definition forward_handler :: "'w client \<Rightarrow> unicode_db \<Rightarrow> rule list \<Rightarrow> event \<Rightarrow> 'w state \<Rightarrow> 'w state" where
  "forward_handler cl U rules ev st = foldl (\<lambda>s r. process_rule cl U ev r s) st rules"

section \<open>Concrete clients, states and messages\<close>

text \<open>
  A client in which every call returns: destinations resolve by a table, a download
  yields a temporary file, every send goes through. Its world carries no information.
\<close>

definition scripted_client :: "(pystr \<Rightarrow> entity option) \<Rightarrow> unit client" where
  "scripted_client res =
     \<lparr>resolve_dest = (\<lambda>d w. (res d, w)),
      download_media = (\<lambda>m w. (Inr (Some (ustr ''/tmp/media'')), w)),
      send_file = (\<lambda>e fs k c w. (Inr (), w)),
      send_message = (\<lambda>e t lp w. (Inr (), w)),
      forward_messages = (\<lambda>e ms w. (Inr (), w))\<rparr>"

text \<open>The handler's state before any message: no album buffer, no timer, counters at zero.\<close>

definition idle_state :: "unit state" where
  "idle_state =
     \<lparr>world = (), album_cache = Map.empty, timers = [], forward_count = (\<lambda>r. 0),
      deliveries = []\<rparr>"

text \<open>
  A plain text message, and the same message turned into a photo (possibly an album
  member) or a voice note.
\<close>

definition text_message :: "nat \<Rightarrow> pystr \<Rightarrow> incoming_message" where
  "text_message i t =
     \<lparr>msg_id = i, message = t, msg_text = t, photo = False, video_note = False, video = False,
      voice = False, audio = False, sticker = False, gif = False, document = False,
      poll = False, grouped_id = None, forward = False, reply_to = False, entities = [],
      reply_markup = False, media = False, web_preview = False\<rparr>"

definition photo_message :: "nat \<Rightarrow> pystr \<Rightarrow> int option \<Rightarrow> incoming_message" where
  "photo_message i t g = (text_message i t)\<lparr>photo := True, grouped_id := g, media := True\<rparr>"

definition voice_message :: "nat \<Rightarrow> pystr \<Rightarrow> incoming_message" where
  "voice_message i t = (text_message i t)\<lparr>voice := True, document := True, media := True\<rparr>"

definition no_modify :: modify_settings where
  "no_modify =
     \<lparr>block_words_enabled = False, block_words = [], whitelist_enabled = False,
      whitelist_words = []\<rparr>"

text \<open>A Unicode database that knows nothing beyond ASCII.\<close>

definition ascii_db :: unicode_db where
  "ascii_db =
     \<lparr>uni_word = (\<lambda>c. False), uni_space = (\<lambda>c. False), uni_decimal = (\<lambda>c. None),
      uni_lower = (\<lambda>s. s)\<rparr>"

text \<open>
  The rule of the spec's scenario, with the delivery mode and the filter map left open,
  and an event from its first source, the channel \<open>@chanA\<close>.
\<close>

definition example_rule :: "string \<Rightarrow> filters \<Rightarrow> rule" where
  "example_rule mode fs =
     \<lparr>rule_id = 7, source_list = [ustr ''@chanA'', ustr ''-1001111111111''],
      dest_list = [ustr ''@chanB''], forward_mode = mode, filters = fs, modify = no_modify\<rparr>"

definition example_event :: "incoming_message \<Rightarrow> event" where
  "example_event m = \<lparr>chat_id = 42, chat_username = Some (ustr ''chanA''), ev_message = m\<rparr>"


section \<open>Verified properties\<close>

subsection \<open>Unfolding \<open>re_sub\<close> on a given text\<close>

lemma re_sub_Nil: "re_sub pat repl b [] = []"
  by (subst re_sub.simps) (simp split: option.splits prod.splits)

lemma re_sub_Cons:
  "re_sub pat repl b (c # cs) =
     (if m_alt pat (b, c # cs) = [] then c # re_sub pat repl (c = 10) cs
      else if length (snd (hd (m_alt pat (b, c # cs)))) < Suc (length cs)
           then repl @ re_sub pat repl (fst (hd (m_alt pat (b, c # cs))))
                         (snd (hd (m_alt pat (b, c # cs))))
           else c # re_sub pat repl (c = 10) cs)"
  by (subst re_sub.simps) (auto simp: first_match_def split: list.splits)

lemmas regex_eval =
  re_sub_Nil re_sub_Cons m_alt_def Lit_def Plus_def Opt_def lits_def ustr_def
  is_word_def is_space_def is_decimal_def nonspace_def py_strip_def

lemmas clean_eval =
  clean_text_def flag_def Let_def normalize_ws_def strip_hashtags_def strip_mentions_def
  strip_links_def strip_emojis_def strip_phones_def strip_emails_def
  pat_hashtag_def pat_mention_def pat_link1_def pat_link2_def pat_link3_def pat_link4_def
  pat_link5_def pat_spaces_def pat_line_trim_def pat_newlines_def

subsection \<open>Decimal text of integers\<close>

lemma ustr_100: "ustr ''-100'' = [45, 49, 48, 48]" by (simp add: ustr_def)
lemma ustr_at: "ustr ''@'' = [64]" by (simp add: ustr_def)

lemma digits_100: "digits 100 = [49, 48, 48]"
  by (simp add: digits.simps digit_char_def)

lemma digits_step: "0 < m \<Longrightarrow> d < 10 \<Longrightarrow> digits (m * 10 + d) = digits m @ [digit_char d]"
  by (subst digits.simps) simp

lemma digits_shift:
  "0 < m \<Longrightarrow> digits (m * 10 ^ length (digits n) + n) = digits m @ digits n"
proof (induction n rule: digits.induct)
  case (1 n)
  show ?case
  proof (cases "n < 10")
    case True
    then have "digits n = [digit_char n]" by (simp add: digits.simps)
    with True 1(2) show ?thesis by (simp add: digits_step)
  next
    case False
    then have dn: "digits n = digits (n div 10) @ [digit_char (n mod 10)]"
      by (subst digits.simps) simp
    have eq: "m * 10 ^ length (digits n) + n
            = (m * 10 ^ length (digits (n div 10)) + n div 10) * 10 + n mod 10"
      by (simp add: dn algebra_simps)
    have pos: "0 < m * 10 ^ length (digits (n div 10)) + n div 10"
      using 1(2) by simp
    have "digits ((m * 10 ^ length (digits (n div 10)) + n div 10) * 10 + n mod 10)
            = digits (m * 10 ^ length (digits (n div 10)) + n div 10) @ [digit_char (n mod 10)]"
      by (rule digits_step [OF pos]) simp
    then have "digits (m * 10 ^ length (digits n) + n)
            = digits (m * 10 ^ length (digits (n div 10)) + n div 10) @ [digit_char (n mod 10)]"
      by (simp only: eq)
    also have "\<dots> = (digits m @ digits (n div 10)) @ [digit_char (n mod 10)]"
      using 1(1) [OF False 1(2)] by simp
    finally show ?thesis by (simp add: dn)
  qed
qed

lemma digits_all_digit: "\<forall>c \<in> set (digits n). is_digit c"
  by (induction n rule: digits.induct) (subst digits.simps, auto simp: is_digit_def digit_char_def)

lemma digits_nonempty: "digits n \<noteq> []"
  by (subst digits.simps) simp

lemma ascii_of_ascii: "\<forall>c \<in> set s. c < 128 \<Longrightarrow> ascii_of U s = Some s"
  by (induction s) (auto simp: to_ascii_def)

lemma strip_ascii_id:
  "s \<noteq> [] \<Longrightarrow> \<not> int_space (hd s) \<Longrightarrow> \<not> int_space (last s) \<Longrightarrow> strip_ascii s = s"
proof -
  assume a: "s \<noteq> []" "\<not> int_space (hd s)" "\<not> int_space (last s)"
  then have 1: "dropWhile int_space s = s" by (cases s) auto
  from a have "rev s \<noteq> []" "\<not> int_space (hd (rev s))" by (auto simp: hd_rev)
  then have 2: "dropWhile int_space (rev s) = rev s" by (cases "rev s") auto
  show ?thesis by (simp add: strip_ascii_def 1 2)
qed

lemma int_body_ok_digits: "s \<noteq> [] \<Longrightarrow> \<forall>c \<in> set s. is_digit c \<Longrightarrow> int_body_ok s"
  by (induction s rule: int_body_ok.induct) (auto simp: is_digit_def)

lemma digits_val_append: "digits_val acc (xs @ [c]) = digits_val acc xs * 10 + digit_val c"
  by (induction xs arbitrary: acc) auto

lemma digits_val_digits: "digits_val 0 (digits n) = n"
  by (induction n rule: digits.induct)
     (subst digits.simps, auto simp: digits_val_append digit_val_def digit_char_def)

lemma filter_digits: "\<forall>c \<in> set s. is_digit c \<Longrightarrow> filter (\<lambda>c. c \<noteq> 95) s = s"
  by (induction s) (auto simp: is_digit_def)

lemma int_body_digits: "int_body (digits n) = Inr n"
  by (simp add: int_body_def int_body_ok_digits digits_all_digit digits_nonempty
      filter_digits digits_val_digits)

lemma hd_digits: "is_digit (hd (digits n))"
  using digits_all_digit [of n] digits_nonempty [of n] by (cases "digits n") auto

lemma last_digits: "is_digit (last (digits n))"
  using digits_all_digit [of n] digits_nonempty [of n] last_in_set by blast

lemma prep_digits: "ascii_of U (digits n) = Some (digits n)" "strip_ascii (digits n) = digits n"
proof -
  show "ascii_of U (digits n) = Some (digits n)"
    using digits_all_digit [of n] by (intro ascii_of_ascii) (auto simp: is_digit_def)
  show "strip_ascii (digits n) = digits n"
    using hd_digits [of n] last_digits [of n] digits_nonempty [of n]
    by (intro strip_ascii_id) (auto simp: is_digit_def int_space_def)
qed

lemma py_int_digits: "py_int U (digits n) = Inr (int n)"
proof -
  obtain c cs where d: "digits n = c # cs" using digits_nonempty [of n] by (cases "digits n") auto
  with hd_digits [of n] have "c \<noteq> 45" "c \<noteq> 43" by (auto simp: is_digit_def)
  then show ?thesis
    using int_body_digits [of n] by (simp add: py_int_def prep_digits) (simp add: d)
qed

lemma py_str_nat: "py_str (int n) = digits n"
  by (simp add: py_str_def)

lemma py_str_neg: "0 < k \<Longrightarrow> py_str (- int k) = 45 # digits k"
  by (simp add: py_str_def)

lemma py_str_add_prefix100: "py_str (add_prefix100 n) = ustr ''-100'' @ digits n"
proof -
  have "digits (100 * 10 ^ length (digits n) + n) = digits 100 @ digits n"
    by (rule digits_shift) simp
  moreover have "py_str (add_prefix100 n) = 45 # digits (100 * 10 ^ length (digits n) + n)"
    unfolding add_prefix100_def by (rule py_str_neg) simp
  ultimately show ?thesis by (simp add: digits_100 ustr_100)
qed

lemma not_prefixed_nat: "\<not> startswith (py_str (int n)) (ustr ''-100'')"
  using hd_digits [of n] digits_nonempty [of n]
  by (cases "digits n") (auto simp: startswith_def py_str_nat ustr_100 is_digit_def)

lemma prefixed_add: "startswith (py_str (add_prefix100 n)) (ustr ''-100'')"
  by (simp add: startswith_def py_str_add_prefix100 ustr_100)

lemma strip_add: "py_int U (drop 4 (py_str (add_prefix100 n))) = Inr (int n)"
  by (simp add: py_str_add_prefix100 ustr_100 py_int_digits)

lemma not_at_digits: "\<not> startswith (digits n) (ustr ''@'')"
  using hd_digits [of n] digits_nonempty [of n]
  by (cases "digits n") (auto simp: startswith_def ustr_at is_digit_def)

lemma py_int_neg: "py_int U (45 # digits k) = Inr (- int k)"
proof -
  have 1: "ascii_of U (45 # digits k) = Some (45 # digits k)"
    using digits_all_digit [of k] by (intro ascii_of_ascii) (auto simp: is_digit_def)
  have 2: "strip_ascii (45 # digits k) = 45 # digits k"
    using last_digits [of k] digits_nonempty [of k]
    by (intro strip_ascii_id) (auto simp: is_digit_def int_space_def)
  show ?thesis unfolding py_int_def 1 by (simp add: 2 int_body_digits)
qed

lemma py_int_add: "py_int U (py_str (add_prefix100 n)) = Inr (add_prefix100 n)"
proof -
  have "py_str (add_prefix100 n) = 45 # digits (100 * 10 ^ length (digits n) + n)"
    unfolding add_prefix100_def by (rule py_str_neg) simp
  then show ?thesis by (simp only: py_int_neg add_prefix100_def)
qed

lemma nm1: "numeric_match U (int n) (add_prefix100 n) = Inr True"
  by (simp add: numeric_match_def prefixed_add strip_add not_prefixed_nat)

lemma nm2: "numeric_match U (add_prefix100 n) (int n) = Inr True"
  by (simp add: numeric_match_def prefixed_add strip_add not_prefixed_nat)

lemma nm3: "numeric_match U c c = Inr True"
  by (simp add: numeric_match_def)

text \<open>
  For a real channel id \<open>n\<close>, written bare (\<open>n\<close>) or with the \<open>-100\<close> prefix on either
  side, the chat matches the source in all four combinations.
\<close>

lemma prefix_forms_match:
  assumes "c \<in> {int n, add_prefix100 n}" and "s \<in> {int n, add_prefix100 n}"
  shows "check_source_match U c u (py_str s)"
proof -
  have at: "\<not> startswith (py_str s) (ustr ''@'')"
    using assms(2) not_at_digits [of n]
    by (auto simp: py_str_nat py_str_add_prefix100 startswith_def ustr_at ustr_100)
  have pi: "py_int U (py_str s) = Inr s"
    using assms(2) by (auto simp: py_int_add py_str_nat py_int_digits)
  have "numeric_match U c s = Inr True"
    using assms by (auto simp: nm1 nm2 nm3)
  with at pi show ?thesis by (simp add: check_source_match_def)
qed


text \<open>
  Claim C6. The chat id \<open>-100\<close> is the bare negative form of the real id 100, and the
  sources \<open>100\<close> and \<open>-100100\<close> denote that same id, without and with the \<open>-100\<close> prefix.
  \<open>check_source_match\<close> accepts the first and rejects the second: \<open>str(chat_id)\<close> is
  \<open>-100\<close>, so \<open>int(str(chat_id)[4:])\<close> raises \<open>ValueError\<close> before the comparison of
  \<open>abs(chat_id)\<close> with \<open>src_real\<close> is reached. The same happens with the roles exchanged
  (chat \<open>-100100\<close>, sources \<open>100\<close> and \<open>-100\<close>). The prefix transform changes the outcome.
\<close>

theorem prefix_transform_changes_match_at_100:
  "\<forall>U. check_source_match U (- 100) None (ustr ''100'')
      \<and> \<not> check_source_match U (- 100) None (ustr ''-100100'')
      \<and> numeric_match U (- 100) (- 100100) = Inl ValueError
      \<and> check_source_match U (- 100100) None (ustr ''100'')
      \<and> \<not> check_source_match U (- 100100) None (ustr ''-100'')"
proof
  fix U
  have d100: "digits 100 = [49, 48, 48]" by (simp add: digits.simps digit_char_def)
  have d100100: "digits 100100 = [49, 48, 48, 49, 48, 48]"
    by (simp add: digits.simps digit_char_def)
  have s1: "py_str (- 100) = 45 # digits 100" "py_str (- 100100) = 45 # digits 100100"
    by (simp_all add: py_str_def)
  have u: "ustr ''100'' = digits 100" "ustr ''-100100'' = 45 # digits 100100"
    "ustr ''-100'' = 45 # digits 100"
    by (simp_all add: ustr_def d100 d100100)
  have e: "py_int U [] = Inl ValueError" by (simp add: py_int_def strip_ascii_def)
  have nm: "numeric_match U (- 100) (- 100100) = Inl ValueError"
    using py_int_digits [of U 100]
    by (simp add: numeric_match_def s1 d100 d100100 startswith_def ustr_100 e)
  have nm2: "numeric_match U (- 100100) (- 100) = Inl ValueError"
    by (simp add: numeric_match_def s1 d100 d100100 startswith_def ustr_100 e)
  have nm3: "numeric_match U (- 100) 100 = Inr True" "numeric_match U (- 100100) 100 = Inr True"
    using py_int_digits [of U 100]
    by (simp_all add: numeric_match_def s1 d100 d100100 startswith_def ustr_100 py_str_def)
  have at: "\<not> startswith (digits 100) (ustr ''@'')" "\<not> startswith (45 # digits 100100) (ustr ''@'')"
    "\<not> startswith (45 # digits 100) (ustr ''@'')"
    by (simp_all add: startswith_def ustr_at d100)
  show "check_source_match U (- 100) None (ustr ''100'')
      \<and> \<not> check_source_match U (- 100) None (ustr ''-100100'')
      \<and> numeric_match U (- 100) (- 100100) = Inl ValueError
      \<and> check_source_match U (- 100100) None (ustr ''100'')
      \<and> \<not> check_source_match U (- 100100) None (ustr ''-100'')"
    using nm nm2 nm3 at py_int_digits [of U 100] py_int_neg [of U 100100] py_int_neg [of U 100]
    by (simp add: check_source_match_def u)
qed

subsection \<open>The dispatch pass of a single message\<close>

lemma dispatch_Nil: "dispatch cl mode msg cap orig rlp [] p = p"
  by (simp add: dispatch_def)


lemma dispatch_append:
  "dispatch cl mode msg cap orig rlp (ds1 @ ds2) p
     = dispatch cl mode msg cap orig rlp ds2 (dispatch cl mode msg cap orig rlp ds1 p)"
  by (simp add: dispatch_def)


lemma deliver_one_forward_raises:
  "mode \<noteq> ''copy'' \<Longrightarrow> resolve_dest cl d (p_world p) = (Some e, w) \<Longrightarrow>
   forward_messages cl e [msg] w = (Inl err, w') \<Longrightarrow>
   deliver_one cl mode msg cap orig rlp d p = p\<lparr>p_world := w'\<rparr>"
  by (simp add: deliver_one_def)

lemma deliver_one_forward_ok:
  "mode \<noteq> ''copy'' \<Longrightarrow> resolve_dest cl d (p_world p) = (Some e, w) \<Longrightarrow>
   forward_messages cl e [msg] w = (Inr u, w') \<Longrightarrow>
   deliver_one cl mode msg cap orig rlp d p
     = p\<lparr>p_world := w', p_deliveries := p_deliveries p @ [Forwarded e [msg]],
         success_count := success_count p + 1\<rparr>"
  by (simp add: deliver_one_def)

lemma process_rule_dispatch:
  assumes "list_ex (check_source_match U (chat_id ev) (chat_username ev)) (source_list r)"
    and "filter_decision (filters r) (ev_message ev) = Dispatch"
    and "dispatch cl (forward_mode r) (ev_message ev)
           (clean_text U (filters r) (caption_of (ev_message ev))) (caption_of (ev_message ev))
           (flag (filters r) ''clean_link'') (dest_list r)
           \<lparr>p_world = world st, p_deliveries = deliveries st, success_count = 0\<rparr> = p"
  shows "process_rule cl U ev r st =
           (if success_count p > 0
            then increment_forward_count (rule_id r)
                   (st\<lparr>world := p_world p, deliveries := p_deliveries p\<rparr>)
            else st\<lparr>world := p_world p, deliveries := p_deliveries p\<rparr>)"
  using assms by (simp add: process_rule_def Let_def)

text \<open>
  However many destinations succeed, processing a rule leaves the counters alone or
  adds one to the counter of that rule.
\<close>

lemma single_message_counts_once:
  "forward_count (process_rule cl U ev r st) = forward_count st
   \<or> forward_count (process_rule cl U ev r st)
        = (forward_count st)(rule_id r := forward_count st (rule_id r) + 1)"
  by (auto simp: process_rule_def Let_def increment_forward_count_def album_add_def
      split: decision.splits option.splits)

subsection \<open>A voice note in copy mode\<close>

lemma send_text_uncounted:
  "success_count (snd (send_text cl e t lp False p)) = success_count p"
  by (simp add: send_text_def split: prod.splits sum.splits)

lemma upload_voice_text:
  assumes "upload_kind msg = AsVoice" "orig \<noteq> []"
  shows "success_count (snd (upload cl msg cap orig e f p)) = success_count p"
  using assms by (simp add: upload_def Let_def split: prod.splits sum.splits)

lemma upload_kind_voice:
  "voice msg \<Longrightarrow> \<not> photo msg \<Longrightarrow> \<not> video_note msg \<Longrightarrow> upload_kind msg = AsVoice"
  by (simp add: upload_kind_def)

lemma copy_body_voice_uncounted:
  assumes "voice msg" "\<not> photo msg" "\<not> video_note msg" "media msg" "orig \<noteq> []"
  shows "success_count (snd (copy_body cl msg cap orig rlp e p)) = success_count p"
proof -
  have k: "upload_kind msg = AsVoice" using assms by (simp add: upload_kind_voice)
  have nw: "\<not> is_only_web_preview msg" using assms by (simp add: is_only_web_preview_def)
  show ?thesis
    using assms(4,5) nw
    by (auto simp: copy_body_def Let_def send_text_uncounted upload_voice_text [OF k]
        split: prod.splits sum.splits option.splits)
qed

text \<open>
  Claim C10. In copy mode, take a message that reaches the voice branch of the upload
  (\<open>msg.voice\<close> set, not a photo, not a video note, with media) and whose original text
  is not empty. Whatever the client does, the destination is never counted as a
  success. When the download and the upload of the voice file succeed, the body of the
  copy \<open>try\<close> ends in \<open>NameError\<close>: the voice file has been sent, the trailing text
  message has not, and \<open>success_count\<close> is unchanged.
\<close>

theorem voice_copy_raises_name_error:
  assumes "voice msg" and "\<not> photo msg" and "\<not> video_note msg" and "media msg"
    and "original_text \<noteq> []"
  shows "success_count (deliver_one cl ''copy'' msg caption original_text rlp dest p)
           = success_count p
       \<and> (download_media cl msg (p_world p) = (Inr (Some f), w1) \<longrightarrow>
          send_file cl e [f] AsVoice None w1 = (Inr (), w2) \<longrightarrow>
          copy_body cl msg caption original_text rlp e p
            = (Inl NameError,
               p\<lparr>p_world := w2,
                 p_deliveries := p_deliveries p @ [SentFile e [f] AsVoice None]\<rparr>))"
proof
  show "success_count (deliver_one cl ''copy'' msg caption original_text rlp dest p)
           = success_count p"
    by (simp add: deliver_one_def copy_body_voice_uncounted [OF assms]
        split: prod.splits option.splits)
next
  have k: "upload_kind msg = AsVoice" using assms by (simp add: upload_kind_voice)
  have nw: "\<not> is_only_web_preview msg" using assms by (simp add: is_only_web_preview_def)
  show "download_media cl msg (p_world p) = (Inr (Some f), w1) \<longrightarrow>
          send_file cl e [f] AsVoice None w1 = (Inr (), w2) \<longrightarrow>
          copy_body cl msg caption original_text rlp e p
            = (Inl NameError,
               p\<lparr>p_world := w2,
                 p_deliveries := p_deliveries p @ [SentFile e [f] AsVoice None]\<rparr>)"
    using assms(4,5) nw k
    by (simp add: copy_body_def upload_def upload_caption_def Let_def)
qed

theorem voice_copy_raises_name_error_witness:
  "voice (voice_message 1 (ustr ''hi'')) \<and> \<not> photo (voice_message 1 (ustr ''hi''))
   \<and> \<not> video_note (voice_message 1 (ustr ''hi'')) \<and> media (voice_message 1 (ustr ''hi''))
   \<and> ustr ''hi'' \<noteq> []
   \<and> success_count
        (deliver_one (scripted_client (\<lambda>d. Some (Entity 5))) ''copy''
           (voice_message 1 (ustr ''hi'')) (ustr ''hi'') (ustr ''hi'') False (ustr ''@dst'')
           \<lparr>p_world = (), p_deliveries = [], success_count = 0\<rparr>) = 0
   \<and> copy_body (scripted_client (\<lambda>d. Some (Entity 5))) (voice_message 1 (ustr ''hi''))
        (ustr ''hi'') (ustr ''hi'') False (Entity 5)
        \<lparr>p_world = (), p_deliveries = [], success_count = 0\<rparr>
      = (Inl NameError,
         \<lparr>p_world = (),
          p_deliveries = [SentFile (Entity 5) [ustr ''/tmp/media''] AsVoice None],
          success_count = 0\<rparr>)"
proof -
  let ?m = "voice_message 1 (ustr ''hi'')"
  let ?cl = "scripted_client (\<lambda>d. Some (Entity 5))"
  let ?p = "\<lparr>p_world = (), p_deliveries = [], success_count = 0\<rparr>"
  have h: "voice ?m" "\<not> photo ?m" "\<not> video_note ?m" "media ?m" "ustr ''hi'' \<noteq> []"
    by (simp_all add: voice_message_def text_message_def ustr_def)
  have dl: "download_media ?cl ?m (p_world ?p) = (Inr (Some (ustr ''/tmp/media'')), ())"
    by (simp add: scripted_client_def)
  have sf: "send_file ?cl (Entity 5) [ustr ''/tmp/media''] AsVoice None () = (Inr (), ())"
    by (simp add: scripted_client_def)
  from voice_copy_raises_name_error [OF h, of ?cl "ustr ''hi''" False "ustr ''@dst''" ?p
      "ustr ''/tmp/media''" "()" "Entity 5" "()"] dl sf h
  show ?thesis by simp
qed

subsection \<open>Failure of one destination\<close>


subsection \<open>Evaluating the handler on the example rule\<close>

lemma ustr_chanA: "ustr ''@chanA'' = [64, 99, 104, 97, 110, 65]" "ustr ''chanA'' = [99, 104, 97, 110, 65]"
  by (simp_all add: ustr_def)

lemma example_source_match:
  "list_ex (check_source_match U (chat_id (example_event m)) (chat_username (example_event m)))
     (source_list (example_rule mode fs))"
  by (simp add: example_event_def example_rule_def check_source_match_def startswith_def
      ustr_chanA ustr_at py_lower_def lower_char_def)

lemma forward_handler_single: "forward_handler cl U [r] ev st = process_rule cl U ev r st"
  by (simp add: forward_handler_def)

lemma process_rule_album:
  assumes "list_ex (check_source_match U (chat_id ev) (chat_username ev)) (source_list r)"
    and "filter_decision (filters r) (ev_message ev) = Album g"
  shows "process_rule cl U ev r st = album_add g (ev_message ev) r st"
  using assms by (simp add: process_rule_def Let_def)

lemma process_rule_skip:
  assumes "filter_decision (filters r) (ev_message ev) = Skip"
  shows "process_rule cl U ev r st = st"
  using assms by (simp add: process_rule_def Let_def)

subsection \<open>The album path and the counter\<close>

lemma album_deliver_keeps:
  "forward_count (album_deliver cl msgs mode cap d st) = forward_count st"
  "album_cache (album_deliver cl msgs mode cap d st) = album_cache st"
  "timers (album_deliver cl msgs mode cap d st) = timers st"
  by (simp_all add: album_deliver_def split: prod.splits option.splits sum.splits)

lemma album_pass_keeps:
  "forward_count (album_pass cl msgs mode cap ds st) = forward_count st
   \<and> album_cache (album_pass cl msgs mode cap ds st) = album_cache st
   \<and> timers (album_pass cl msgs mode cap ds st) = timers st"
  unfolding album_pass_def
  by (induction ds arbitrary: st) (simp_all add: album_deliver_keeps)

text \<open>Neither buffering an album member nor flushing an album touches any counter.\<close>

lemma album_path_never_counts:
  "forward_count (album_add g msg r st) = forward_count st"
  "forward_count (send_album_group cl g st) = forward_count st"
  "forward_count (fire_timer cl st) = forward_count st"
proof -
  show 1: "forward_count (album_add g msg r st) = forward_count st"
    by (simp add: album_add_def split: option.splits)
  show 2: "\<And>st. forward_count (send_album_group cl g st) = forward_count st"
    by (simp add: send_album_group_def Let_def album_pass_keeps split: option.splits)
  show "forward_count (fire_timer cl st) = forward_count st"
    by (simp add: fire_timer_def send_album_group_def Let_def album_pass_keeps
        split: list.splits option.splits)
qed

text \<open>
  Claim C1. Two photos of one album arrive for the example rule in forward mode, the
  destination resolves and \<open>forward_messages\<close> succeeds: after the flush the album has
  been delivered to the destination as one unit, and the rule's forward counter is
  still zero. (A single message delivered the same way moves the counter to one.)
\<close>

theorem delivered_album_is_not_counted:
  "fire_timer (scripted_client (\<lambda>d. Some (Entity 2)))
     (forward_handler (scripted_client (\<lambda>d. Some (Entity 2))) ascii_db
        [example_rule ''forward'' Map.empty]
        (example_event (photo_message 2 [] (Some 9)))
        (forward_handler (scripted_client (\<lambda>d. Some (Entity 2))) ascii_db
           [example_rule ''forward'' Map.empty]
           (example_event (photo_message 1 [] (Some 9))) idle_state))
   = idle_state
       \<lparr>deliveries :=
          [Forwarded (Entity 2) [photo_message 1 [] (Some 9), photo_message 2 [] (Some 9)]]\<rparr>
   \<and> forward_count
       (forward_handler (scripted_client (\<lambda>d. Some (Entity 2))) ascii_db
          [example_rule ''forward'' Map.empty]
          (example_event (text_message 3 (ustr ''hi''))) idle_state) 7 = 1"
proof -
  let ?cl = "scripted_client (\<lambda>d. Some (Entity 2))"
  let ?r = "example_rule ''forward'' Map.empty"
  have dec: "filter_decision (filters ?r) (photo_message i [] (Some 9)) = Album 9" for i
    by (simp add: filter_decision_def example_rule_def flag_def photo_message_def
        text_message_def grouped_def has_caption_def)
  have a1: "forward_handler ?cl ascii_db [?r] (example_event (photo_message i [] (Some 9))) st
              = album_add 9 (photo_message i [] (Some 9)) ?r st" for i and st :: "unit state"
    using process_rule_album [OF example_source_match, of "''forward''" Map.empty
        "photo_message i [] (Some 9)" 9 ?cl ascii_db st] dec [of i]
    by (simp add: forward_handler_single example_event_def)
  have dect: "filter_decision (filters ?r) (text_message 3 (ustr ''hi'')) = Dispatch"
    by (simp add: filter_decision_def example_rule_def flag_def text_message_def grouped_def
        has_caption_def msg_type_def)
  have single: "forward_count
       (forward_handler ?cl ascii_db [?r] (example_event (text_message 3 (ustr ''hi''))) idle_state) 7
       = 1"
    using example_source_match [of ascii_db "text_message 3 (ustr ''hi'')" "''forward''" Map.empty]
      dect
    by (simp add: forward_handler_single process_rule_def Let_def example_event_def)
       (simp add: example_rule_def dispatch_def deliver_one_def scripted_client_def
          increment_forward_count_def idle_state_def)
  show ?thesis
    unfolding a1 using single
    by (simp add: album_add_def idle_state_def fire_timer_def send_album_group_def Let_def
        album_pass_def album_deliver_def example_rule_def scripted_client_def)
qed

subsection \<open>Block words\<close>

text \<open>
  Outside the album branch, the \<open>modify\<close> settings of a rule (among them the block-word
  and whitelist settings) have no influence on what the handler does.
\<close>

lemma modify_is_never_read:
  assumes "grouped (ev_message ev) = None"
  shows "process_rule cl U ev (r\<lparr>modify := m\<rparr>) st = process_rule cl U ev r st"
proof -
  have "filter_decision (filters r) (ev_message ev) \<noteq> Album g" for g
    using assms by (auto simp: filter_decision_def)
  then show ?thesis
    by (cases "filter_decision (filters r) (ev_message ev)")
       (auto simp add: process_rule_def Let_def)
qed

text \<open>
  Claim C2. The example rule in forward mode has its block-word list enabled with the
  word \<open>spam\<close>; the text message \<open>spam\<close> arrives. The message is forwarded to the
  destination and the rule's counter goes to one: the block word has no effect.
\<close>

theorem block_word_message_is_forwarded:
  "process_rule (scripted_client (\<lambda>d. Some (Entity 2))) ascii_db
     (example_event (text_message 1 (ustr ''spam'')))
     ((example_rule ''forward'' Map.empty)
        \<lparr>modify := \<lparr>block_words_enabled = True, block_words = [ustr ''spam''],
                     whitelist_enabled = False, whitelist_words = []\<rparr>\<rparr>)
     idle_state
   = idle_state
       \<lparr>forward_count := (\<lambda>r. 0)(7 := 1),
        deliveries := [Forwarded (Entity 2) [text_message 1 (ustr ''spam'')]]\<rparr>"
proof -
  let ?m = "text_message 1 (ustr ''spam'')"
  let ?r = "(example_rule ''forward'' Map.empty)
        \<lparr>modify := \<lparr>block_words_enabled = True, block_words = [ustr ''spam''],
                     whitelist_enabled = False, whitelist_words = []\<rparr>\<rparr>"
  have sm: "list_ex (check_source_match ascii_db (chat_id (example_event ?m))
              (chat_username (example_event ?m))) (source_list ?r)"
    using example_source_match [of ascii_db ?m "''forward''" Map.empty]
    by (simp add: example_rule_def)
  have dec: "filter_decision (filters ?r) (ev_message (example_event ?m)) = Dispatch"
    by (simp add: filter_decision_def example_rule_def example_event_def flag_def
        text_message_def grouped_def has_caption_def msg_type_def)
  show ?thesis
    using sm dec
    by (simp add: process_rule_def Let_def)
       (simp add: example_rule_def example_event_def dispatch_def deliver_one_def
          scripted_client_def increment_forward_count_def idle_state_def)
qed

subsection \<open>The album caption\<close>

text \<open>
  What a flush hands to the dispatch pass: all buffered messages, and the caption as it
  was captured from the members, whatever the rule's cleaning flags are.
\<close>

lemma flush_hands_over_buffer:
  assumes "album_cache st g = Some a" and "messages a \<noteq> []"
  shows "send_album_group cl g st
           = album_pass cl (messages a) (forward_mode (album_rule a)) (caption_text a)
               (album_dest_list a) (st\<lparr>album_cache := (album_cache st)(g := None)\<rparr>)"
  using assms by (simp add: send_album_group_def Let_def)

text \<open>
  Claim C3. The example rule is in copy mode with the hashtag cleaner on. An album of
  two photos arrives, the first with the caption \<open>#tag pic\<close>. The cleaning pipeline turns
  that caption into \<open>pic\<close>, and a single photo with that caption is sent with the caption
  \<open>pic\<close>; the album is sent with the caption \<open>#tag pic\<close>, as captured.
\<close>

theorem album_caption_is_not_cleaned:
  "clean_text ascii_db [''clean_hashtag'' \<mapsto> True] (ustr ''#tag pic'') = ustr ''pic''
   \<and> deliveries
       (forward_handler (scripted_client (\<lambda>d. Some (Entity 2))) ascii_db
          [example_rule ''copy'' [''clean_hashtag'' \<mapsto> True]]
          (example_event (photo_message 3 (ustr ''#tag pic'') None)) idle_state)
     = [SentFile (Entity 2) [ustr ''/tmp/media''] AsPhoto (Some (ustr ''pic''))]
   \<and> deliveries
       (fire_timer (scripted_client (\<lambda>d. Some (Entity 2)))
          (forward_handler (scripted_client (\<lambda>d. Some (Entity 2))) ascii_db
             [example_rule ''copy'' [''clean_hashtag'' \<mapsto> True]]
             (example_event (photo_message 2 [] (Some 9)))
             (forward_handler (scripted_client (\<lambda>d. Some (Entity 2))) ascii_db
                [example_rule ''copy'' [''clean_hashtag'' \<mapsto> True]]
                (example_event (photo_message 1 (ustr ''#tag pic'') (Some 9))) idle_state)))
     = [SentFile (Entity 2) [ustr ''/tmp/media'', ustr ''/tmp/media''] AsAlbum
          (Some (ustr ''#tag pic''))]"
proof -
  let ?cl = "scripted_client (\<lambda>d. Some (Entity 2))"
  let ?fs = "[''clean_hashtag'' \<mapsto> True] :: filters"
  let ?r = "example_rule ''copy'' ?fs"
  have ct: "clean_text ascii_db ?fs (ustr ''#tag pic'') = ustr ''pic''"
    by (simp add: regex_eval clean_eval)
  have dec: "filter_decision (filters ?r) (photo_message i t (Some 9)) = Album 9" for i t
    by (simp add: filter_decision_def example_rule_def flag_def photo_message_def
        text_message_def grouped_def has_caption_def)
  have a1: "forward_handler ?cl ascii_db [?r] (example_event (photo_message i t (Some 9))) st
              = album_add 9 (photo_message i t (Some 9)) ?r st" for i t and st :: "unit state"
    using process_rule_album [OF example_source_match, of "''copy''" ?fs
        "photo_message i t (Some 9)" 9 ?cl ascii_db st] dec [of i t]
    by (simp add: forward_handler_single example_event_def)
  have decs: "filter_decision (filters ?r) (photo_message 3 (ustr ''#tag pic'') None) = Dispatch"
    by (simp add: filter_decision_def example_rule_def flag_def photo_message_def
        text_message_def grouped_def has_caption_def msg_type_def)
  have cap3: "caption_of (photo_message 3 (ustr ''#tag pic'') None) = ustr ''#tag pic''"
    by (simp add: caption_of_def photo_message_def text_message_def)
  have ct': "clean_text ascii_db ?fs [35, 116, 97, 103, 32, 112, 105, 99] = [112, 105, 99]"
    using ct by (simp add: ustr_def)
  have single: "deliveries
       (forward_handler ?cl ascii_db [?r]
          (example_event (photo_message 3 (ustr ''#tag pic'') None)) idle_state)
     = [SentFile (Entity 2) [ustr ''/tmp/media''] AsPhoto (Some (ustr ''pic''))]"
    using example_source_match [of ascii_db "photo_message 3 (ustr ''#tag pic'') None"
        "''copy''" ?fs] decs
    by (simp add: forward_handler_single process_rule_def Let_def example_event_def cap3 ct)
       (simp add: ct' example_rule_def dispatch_def deliver_one_def copy_body_def upload_def
          upload_kind_def upload_caption_def is_only_web_preview_def Let_def
          scripted_client_def increment_forward_count_def idle_state_def photo_message_def
          text_message_def ustr_def)
  have album: "deliveries
       (fire_timer ?cl
          (album_add 9 (photo_message 2 [] (Some 9)) ?r
             (album_add 9 (photo_message 1 (ustr ''#tag pic'') (Some 9)) ?r idle_state)))
     = [SentFile (Entity 2) [ustr ''/tmp/media'', ustr ''/tmp/media''] AsAlbum
          (Some (ustr ''#tag pic''))]"
    by (simp add: album_add_def idle_state_def fire_timer_def send_album_group_def Let_def
        album_pass_def album_deliver_def example_rule_def scripted_client_def caption_of_def
        photo_message_def text_message_def ustr_def)
  show ?thesis
    unfolding a1 using ct single album by simp
qed

subsection \<open>The kind filter\<close>

text \<open>
  A message that is not an album member and whose kind is switched off in the filter
  map is skipped: the state, and with it every counter, stays as it was.
\<close>

lemma kind_filter_skips_single_message:
  assumes "grouped (ev_message ev) = None" and "msg_type (ev_message ev) = Some k"
    and "flag (filters r) k"
  shows "process_rule cl U ev r st = st"
proof -
  have "filter_decision (filters r) (ev_message ev) = Skip"
    using assms by (simp add: filter_decision_def)
  then show ?thesis by (rule process_rule_skip)
qed

text \<open>
  Claim C7. The example rule in forward mode has the \<open>photo\<close> filter on. A single photo
  is skipped: nothing changes. The same photo as a member of an album is classified as
  \<open>photo\<close> as well, but it is buffered before the kind filter is looked at, and the
  flush forwards it to the destination. (The counter stays at zero in both cases.)
\<close>

theorem album_member_passes_kind_filter:
  "msg_type (photo_message 1 [] (Some 9)) = Some ''photo''
   \<and> flag (filters (example_rule ''forward'' [''photo'' \<mapsto> True])) ''photo''
   \<and> forward_handler (scripted_client (\<lambda>d. Some (Entity 2))) ascii_db
       [example_rule ''forward'' [''photo'' \<mapsto> True]]
       (example_event (photo_message 1 [] None)) idle_state = idle_state
   \<and> fire_timer (scripted_client (\<lambda>d. Some (Entity 2)))
       (forward_handler (scripted_client (\<lambda>d. Some (Entity 2))) ascii_db
          [example_rule ''forward'' [''photo'' \<mapsto> True]]
          (example_event (photo_message 1 [] (Some 9))) idle_state)
     = idle_state\<lparr>deliveries := [Forwarded (Entity 2) [photo_message 1 [] (Some 9)]]\<rparr>"
proof -
  let ?cl = "scripted_client (\<lambda>d. Some (Entity 2))"
  let ?fs = "[''photo'' \<mapsto> True] :: filters"
  let ?r = "example_rule ''forward'' ?fs"
  have k: "msg_type (photo_message i [] g) = Some ''photo''" for i g
    by (simp add: msg_type_def photo_message_def text_message_def)
  have f: "flag (filters ?r) ''photo''"
    by (simp add: flag_def example_rule_def)
  have g0: "grouped (ev_message (example_event (photo_message 1 [] None))) = None"
    by (simp add: grouped_def example_event_def photo_message_def text_message_def)
  have k0: "msg_type (ev_message (example_event (photo_message 1 [] None))) = Some ''photo''"
    by (simp add: k example_event_def)
  have single: "forward_handler ?cl ascii_db [?r] (example_event (photo_message 1 [] None)) idle_state
                  = idle_state"
    using kind_filter_skips_single_message [OF g0 k0 f]
    by (simp add: forward_handler_single)
  have dec: "filter_decision (filters ?r) (photo_message 1 [] (Some 9)) = Album 9"
    by (simp add: filter_decision_def example_rule_def flag_def photo_message_def
        text_message_def grouped_def has_caption_def)
  have a1: "forward_handler ?cl ascii_db [?r] (example_event (photo_message 1 [] (Some 9))) idle_state
              = album_add 9 (photo_message 1 [] (Some 9)) ?r idle_state"
    using process_rule_album [OF example_source_match, of "''forward''" ?fs
        "photo_message 1 [] (Some 9)" 9 ?cl ascii_db idle_state] dec
    by (simp add: forward_handler_single example_event_def)
  have album: "fire_timer ?cl (album_add 9 (photo_message 1 [] (Some 9)) ?r idle_state)
     = idle_state\<lparr>deliveries := [Forwarded (Entity 2) [photo_message 1 [] (Some 9)]]\<rparr>"
    by (simp add: album_add_def idle_state_def fire_timer_def send_album_group_def Let_def
        album_pass_def album_deliver_def example_rule_def scripted_client_def)
  show ?thesis
    unfolding a1 using k [of 1 "Some 9"] f single album by simp
qed

theorem album_member_passes_kind_filter_witness:
  "deliveries
     (fire_timer (scripted_client (\<lambda>d. Some (Entity 2)))
        (forward_handler (scripted_client (\<lambda>d. Some (Entity 2))) ascii_db
           [example_rule ''forward'' [''photo'' \<mapsto> True]]
           (example_event (photo_message 1 [] (Some 9))) idle_state))
   = [Forwarded (Entity 2) [photo_message 1 [] (Some 9)]]"
  using album_member_passes_kind_filter by simp


subsection \<open>A burst of album members\<close>






subsection \<open>The scenario of the spec\<close>

text \<open>
  Claim C9. The rule of the scenario (copy mode, filter \<open>photo_only\<close>, cleaners for
  hashtags, mentions and links) receives the text message
  \<open>Hello #world @user http://x.com\<close> from \<open>@chanA\<close>. The cleaned and normalised text is
  \<open>Hello\<close>. When \<open>@chanB\<close> resolves and the send succeeds, that text is sent to the
  resolved destination as one message, with the link preview off, and the rule's
  counter goes up by one.
\<close>

theorem scenario_hello_dispatched:
  fixes cl :: "'w client" and st :: "'w state"
  assumes res: "resolve_dest cl (ustr ''@chanB'') (world st) = (Some e, w1)"
    and snd: "send_message cl e (ustr ''Hello'') False w1 = (Inr (), w2)"
  defines "fs \<equiv> [''photo_only'' \<mapsto> True, ''clean_hashtag'' \<mapsto> True,
                  ''clean_mention'' \<mapsto> True, ''clean_link'' \<mapsto> True]"
  shows "clean_text U fs (ustr ''Hello #world @user http://x.com'') = ustr ''Hello''
       \<and> process_rule cl U
           (example_event (text_message i (ustr ''Hello #world @user http://x.com'')))
           (example_rule ''copy'' fs) st
         = st\<lparr>world := w2,
              forward_count := (forward_count st)(7 := forward_count st 7 + 1),
              deliveries := deliveries st @ [SentMessage e (ustr ''Hello'') False]\<rparr>"
proof -
  let ?t = "ustr ''Hello #world @user http://x.com''"
  let ?m = "text_message i ?t"
  have ct: "clean_text U fs ?t = ustr ''Hello''"
    unfolding fs_def by (simp add: regex_eval clean_eval)
  have m: "list_ex (check_source_match U (chat_id (example_event ?m))
              (chat_username (example_event ?m))) (source_list (example_rule ''copy'' fs))"
    by (rule example_source_match)
  have d: "filter_decision (filters (example_rule ''copy'' fs)) (ev_message (example_event ?m))
             = Dispatch"
    by (simp add: filter_decision_def example_rule_def example_event_def flag_def fs_def
        text_message_def grouped_def has_caption_def msg_type_def ustr_def)
  have cap: "caption_of (ev_message (example_event ?m)) = ?t"
    by (simp add: caption_of_def example_event_def text_message_def)
  have fl: "flag (filters (example_rule ''copy'' fs)) ''clean_link''"
    by (simp add: flag_def example_rule_def fs_def)
  have hne: "ustr ''Hello'' \<noteq> []" by (simp add: ustr_def)
  have nm: "\<not> media (ev_message (example_event ?m))"
    by (simp add: example_event_def text_message_def)
  have pass: "dispatch cl (forward_mode (example_rule ''copy'' fs)) (ev_message (example_event ?m))
           (clean_text U (filters (example_rule ''copy'' fs))
              (caption_of (ev_message (example_event ?m))))
           (caption_of (ev_message (example_event ?m)))
           (flag (filters (example_rule ''copy'' fs)) ''clean_link'')
           (dest_list (example_rule ''copy'' fs))
           \<lparr>p_world = world st, p_deliveries = deliveries st, success_count = 0\<rparr>
         = \<lparr>p_world = w2, p_deliveries = deliveries st @ [SentMessage e (ustr ''Hello'') False],
            success_count = 1\<rparr>"
    unfolding cap
    using res snd hne nm fl ct
    by (simp add: example_rule_def dispatch_def deliver_one_def copy_body_def send_text_def
        Let_def)
  have rid: "rule_id (example_rule ''copy'' fs) = 7" by (simp add: example_rule_def)
  have "process_rule cl U (example_event ?m) (example_rule ''copy'' fs) st
         = st\<lparr>world := w2,
              forward_count := (forward_count st)(7 := forward_count st 7 + 1),
              deliveries := deliveries st @ [SentMessage e (ustr ''Hello'') False]\<rparr>"
    unfolding process_rule_dispatch [OF m d pass] rid
    by (simp add: increment_forward_count_def)
  with ct show ?thesis by simp
qed

theorem scenario_hello_dispatched_witness:
  "resolve_dest (scripted_client (\<lambda>d. Some (Entity 2))) (ustr ''@chanB'') (world idle_state)
     = (Some (Entity 2), ())
   \<and> send_message (scripted_client (\<lambda>d. Some (Entity 2))) (Entity 2) (ustr ''Hello'') False ()
     = (Inr (), ())
   \<and> process_rule (scripted_client (\<lambda>d. Some (Entity 2))) ascii_db
       (example_event (text_message 1 (ustr ''Hello #world @user http://x.com'')))
       (example_rule ''copy''
          [''photo_only'' \<mapsto> True, ''clean_hashtag'' \<mapsto> True, ''clean_mention'' \<mapsto> True,
           ''clean_link'' \<mapsto> True])
       idle_state
     = idle_state
         \<lparr>forward_count := (\<lambda>r. 0)(7 := 1),
          deliveries := [SentMessage (Entity 2) (ustr ''Hello'') False]\<rparr>"
proof -
  let ?cl = "scripted_client (\<lambda>d. Some (Entity 2))"
  have res: "resolve_dest ?cl (ustr ''@chanB'') (world idle_state) = (Some (Entity 2), ())"
    by (simp add: scripted_client_def)
  have snd: "send_message ?cl (Entity 2) (ustr ''Hello'') False () = (Inr (), ())"
    by (simp add: scripted_client_def)
  from scenario_hello_dispatched [OF res snd, of ascii_db 1, THEN conjunct2] res snd
  show ?thesis by (simp add: idle_state_def)
qed

subsection \<open>What a match consumes\<close>

lemma rep_zero_mem: "(b, s) \<in> set (rep p 0 hi b s)"
  by (cases s) simp_all

lemma rep_zero_nonempty: "rep p 0 hi b s \<noteq> []"
  using rep_zero_mem [of b s p hi] by auto

lemma rep_stop: "rep p 0 (Some 0) b s = [(b, s)]"
  by (cases s) simp_all

lemma rep_snd: "map snd (rep p lo hi b s) = map snd (rep p lo hi b' s)"
  by (cases s) simp_all

text \<open>
  A state reached by a repetition lies behind a stretch \<open>w\<close> of characters of the class,
  at least \<open>lo\<close> of them; and the same stretch is consumed whatever follows it.
\<close>

lemma rep_consumes:
  "(b1, s1) \<in> set (rep p lo hi b s) \<Longrightarrow>
   \<exists>w. s = w @ s1 \<and> lo \<le> length w \<and> (\<forall>c\<in>set w. p c)
       \<and> (\<forall>y b0. \<exists>b2. (b2, y) \<in> set (rep p lo hi b0 (w @ y)))"
proof (induction s arbitrary: lo hi b)
  case Nil
  then have "lo = 0" "s1 = []" by (auto split: if_splits)
  then show ?case using rep_zero_mem [of _ _ p hi] by (intro exI [of _ "[]"]) auto
next
  case (Cons c cs)
  from Cons.prems consider
    (take) "p c" "hi \<noteq> Some 0"
      "(b1, s1) \<in> set (rep p (lo - 1) (map_option (\<lambda>h. h - 1) hi) (c = 10) cs)"
  | (stop) "lo = 0" "s1 = c # cs"
    by (auto split: if_splits)
  then show ?case
  proof cases
    case take
    from Cons.IH [OF take(3)] obtain w where w: "cs = w @ s1" "lo - 1 \<le> length w"
      "\<forall>c\<in>set w. p c"
      "\<forall>y b0. \<exists>b2. (b2, y) \<in> set (rep p (lo - 1) (map_option (\<lambda>h. h - 1) hi) b0 (w @ y))"
      by blast
    show ?thesis
    proof (intro exI [of _ "c # w"] conjI allI)
      show "c # cs = (c # w) @ s1" using w by simp
      show "lo \<le> length (c # w)" using w by simp
      show "\<forall>c\<in>set (c # w). p c" using take w by simp
      fix y b0
      from w(4) obtain b2 where
        "(b2, y) \<in> set (rep p (lo - 1) (map_option (\<lambda>h. h - 1) hi) (c = 10) (w @ y))"
        by blast
      then show "\<exists>b2. (b2, y) \<in> set (rep p lo hi b0 ((c # w) @ y))"
        using take by auto
    qed
  next
    case stop
    then show ?thesis using rep_zero_mem [of _ _ p hi] by (intro exI [of _ "[]"]) auto
  qed
qed

lemma rep_produces:
  "(\<forall>c\<in>set w. p c) \<Longrightarrow> lo \<le> length w \<Longrightarrow> \<exists>b2. (b2, y) \<in> set (rep p lo None b (w @ y))"
proof (induction w arbitrary: lo b)
  case Nil
  then show ?case using rep_zero_mem [of b y p None] by auto
next
  case (Cons c w)
  then have "\<exists>b2. (b2, y) \<in> set (rep p (lo - 1) None (c = 10) (w @ y))"
    by (intro Cons.IH) auto
  then show ?case using Cons.prems by auto
qed

text \<open>A greedy unbounded repetition first stops where the class ends.\<close>

lemma rep_greedy_hd:
  "rep p lo None b s = x # xs \<Longrightarrow> snd x = [] \<or> \<not> p (hd (snd x))"
proof (induction s arbitrary: lo b x xs)
  case Nil
  then show ?case by (auto split: if_splits)
next
  case (Cons c cs)
  note prems = Cons.prems and IH = Cons.IH
  show ?case
  proof (cases "p c")
    case True
    show ?thesis
    proof (cases "rep p (lo - 1) None (c = 10) cs")
      case Nil
      have "lo \<noteq> 0"
      proof
        assume "lo = 0"
        with Nil have "rep p 0 None (c = 10) cs = []" by simp
        then show False using rep_zero_nonempty [of p None "c = 10" cs] by simp
      qed
      with prems True Nil show ?thesis by simp
    next
      case (Cons y ys)
      with prems True have "x = y" by simp
      with IH [OF Cons] show ?thesis by simp
    qed
  next
    case False
    with prems show ?thesis by (auto split: if_splits)
  qed
qed

lemma concat_map_hd:
  "concat (map g ys) = x # xs \<Longrightarrow> \<exists>y\<in>set ys. \<exists>zs. g y = x # zs"
proof (induction ys)
  case Nil
  then show ?case by simp
next
  case (Cons y ys)
  show ?case
  proof (cases "g y")
    case Nil
    with Cons show ?thesis by auto
  next
    case c: (Cons z zs)
    with Cons.prems show ?thesis by auto
  qed
qed

lemma m_seq_single: "m_seq [it] st = m_item it st"
proof -
  have "concat (map (m_seq []) xs) = xs" for xs :: "mstate list"
    by (induction xs) simp_all
  then show ?thesis by simp
qed

lemma m_seq_greedy_hd:
  "m_seq (its @ [Rep p lo None]) st = x # xs \<Longrightarrow> snd x = [] \<or> \<not> p (hd (snd x))"
proof (induction its arbitrary: st x xs)
  case Nil
  obtain b s where st: "st = (b, s)" by (cases st)
  from Nil have "rep p lo None b s = x # xs" by (simp only: append_Nil m_seq_single st m_item.simps)
  then show ?case by (rule rep_greedy_hd)
next
  case (Cons it its)
  from Cons.prems have "concat (map (m_seq (its @ [Rep p lo None])) (m_item it st)) = x # xs"
    by simp
  from concat_map_hd [OF this] obtain y zs where "m_seq (its @ [Rep p lo None]) y = x # zs"
    by blast
  then show ?case by (rule Cons.IH)
qed

text \<open>
  A pattern without anchors: each state it reaches lies behind a stretch \<open>w\<close> whose
  characters belong to the classes of its items, and the pattern matches \<open>w\<close> whatever
  follows.
\<close>

lemma m_seq_consumes:
  assumes "Bol \<notin> set its" "Eol \<notin> set its" "(b1, r) \<in> set (m_seq its (b, s))"
  shows "\<exists>w. s = w @ r \<and> (\<forall>c\<in>set w. \<exists>p lo hi. Rep p lo hi \<in> set its \<and> p c)
          \<and> (\<forall>y b0. \<exists>b2. (b2, y) \<in> set (m_seq its (b0, w @ y)))"
  using assms
proof (induction its arbitrary: b s)
  case Nil
  then show ?case by (intro exI [of _ "[]"]) simp
next
  case (Cons it its)
  obtain p lo hi where it: "it = Rep p lo hi" using Cons.prems by (cases it) auto
  from Cons.prems(3) obtain b' s' where 1: "(b', s') \<in> set (rep p lo hi b s)"
    and 2: "(b1, r) \<in> set (m_seq its (b', s'))"
    by (auto simp: it)
  from rep_consumes [OF 1] obtain w1 where w1: "s = w1 @ s'" "\<forall>c\<in>set w1. p c"
    "\<forall>y b0. \<exists>b2. (b2, y) \<in> set (rep p lo hi b0 (w1 @ y))"
    by blast
  have "Bol \<notin> set its" "Eol \<notin> set its" using Cons.prems by auto
  from Cons.IH [OF this 2] obtain w2 where w2: "s' = w2 @ r"
    "\<forall>c\<in>set w2. \<exists>p lo hi. Rep p lo hi \<in> set its \<and> p c"
    "\<forall>y b0. \<exists>b2. (b2, y) \<in> set (m_seq its (b0, w2 @ y))"
    by blast
  show ?case
  proof (intro exI [of _ "w1 @ w2"] conjI allI ballI)
    show "s = (w1 @ w2) @ r" using w1 w2 by simp
  next
    fix c assume "c \<in> set (w1 @ w2)"
    then consider "c \<in> set w1" | "c \<in> set w2" by auto
    then show "\<exists>p lo hi. Rep p lo hi \<in> set (it # its) \<and> p c"
    proof cases
      case 1
      then have "Rep p lo hi \<in> set (it # its) \<and> p c" using w1(2) it by simp
      then show ?thesis by blast
    next
      case 2
      with w2(2) obtain p' lo' hi' where "Rep p' lo' hi' \<in> set its" "p' c" by blast
      then have "Rep p' lo' hi' \<in> set (it # its) \<and> p' c" by simp
      then show ?thesis by blast
    qed
  next
    fix y b0
    from w1(3) obtain b2 where a: "(b2, w2 @ y) \<in> set (rep p lo hi b0 (w1 @ w2 @ y))" by blast
    from w2(3) obtain b3 where b: "(b3, y) \<in> set (m_seq its (b2, w2 @ y))" by blast
    from a b show "\<exists>b2. (b2, y) \<in> set (m_seq (it # its) (b0, (w1 @ w2) @ y))"
      by (auto simp: it)
  qed
qed

lemma m_seq_shorter:
  assumes "Bol \<notin> set its" "Eol \<notin> set its" "(b1, r) \<in> set (m_seq (Rep p lo hi # its) (b, s))"
    and "0 < lo"
  shows "length r < length s"
proof -
  from assms(3) obtain b' s' where 1: "(b', s') \<in> set (rep p lo hi b s)"
    and 2: "(b1, r) \<in> set (m_seq its (b', s'))"
    by auto
  from rep_consumes [OF 1] obtain w1 where w1: "s = w1 @ s'" "lo \<le> length w1" by blast
  from m_seq_consumes [OF assms(1,2) 2] obtain w2 where "s' = w2 @ r" by blast
  with w1 assms(4) show ?thesis by (cases w1) auto
qed

lemma m_seq_Lit:
  "m_seq (Lit c # its) (b, s)
     = (case s of [] \<Rightarrow> [] | d # ds \<Rightarrow> if d = c then m_seq its (d = 10, ds) else [])"
  by (cases s) (simp_all add: Lit_def rep_stop)

text \<open>Without anchors, the line-start flag has no influence on the texts that remain.\<close>

lemma concat_map_snd:
  assumes "\<And>b b' s. map snd (g (b, s)) = map snd (g (b', s))"
  shows "map snd xs = map snd ys \<Longrightarrow> map snd (concat (map g xs)) = map snd (concat (map g ys))"
proof (induction xs arbitrary: ys)
  case Nil
  then show ?case by simp
next
  case (Cons x xs)
  then obtain y ys' where ys: "ys = y # ys'" "snd x = snd y" "map snd xs = map snd ys'"
    by (cases ys) auto
  obtain bx sx where x: "x = (bx, sx)" by (cases x)
  obtain bz sz where y: "y = (bz, sz)" by (cases y)
  have "sz = sx" using ys(2) x y by simp
  then have "map snd (g x) = map snd (g y)" using assms [of bx sx bz] x y by simp
  with Cons.IH [OF ys(3)] show ?case by (simp add: ys)
qed

lemma m_seq_snd:
  "Bol \<notin> set its \<Longrightarrow> Eol \<notin> set its \<Longrightarrow>
   map snd (m_seq its (b, s)) = map snd (m_seq its (b', s))"
proof (induction its arbitrary: b b' s)
  case Nil
  show ?case by simp
next
  case (Cons it its)
  obtain p lo hi where it: "it = Rep p lo hi" using Cons.prems by (cases it) auto
  have af: "Bol \<notin> set its" "Eol \<notin> set its" using Cons.prems by auto
  have "map snd (concat (map (m_seq its) (rep p lo hi b s)))
          = map snd (concat (map (m_seq its) (rep p lo hi b' s)))"
    by (rule concat_map_snd) (rule Cons.IH [OF af], rule rep_snd)
  then show ?case by (simp add: it)
qed

lemma re_sub_flag:
  assumes "Bol \<notin> set its" "Eol \<notin> set its"
  shows "re_sub [its] repl b s = re_sub [its] repl b' s"
proof (induction s arbitrary: b b' rule: length_induct)
  case (1 s)
  have eq: "map snd (m_seq its (b, s)) = map snd (m_seq its (b', s))"
    by (rule m_seq_snd [OF assms])
  show ?case
  proof (cases s)
    case Nil
    then show ?thesis by (simp add: re_sub_Nil)
  next
    case (Cons c cs)
    show ?thesis
    proof (cases "m_seq its (b, s)")
      case Nil
      then have "m_seq its (b', s) = []" using eq by simp
      with Nil show ?thesis unfolding Cons by (simp add: re_sub_Cons m_alt_def)
    next
      case x: (Cons x xs)
      then obtain x' xs' where x': "m_seq its (b', s) = x' # xs'" "snd x = snd x'"
        using eq by (cases "m_seq its (b', s)") auto
      have IH: "length (snd x) < length s \<Longrightarrow>
                re_sub [its] repl (fst x) (snd x) = re_sub [its] repl (fst x') (snd x)"
        using 1 by blast
      show ?thesis
        using IH x x' unfolding Cons
        by (simp add: re_sub_Cons m_alt_def)
    qed
  qed
qed

text \<open>
  The scan of \<open>re.sub\<close> with an empty replacement, for a pattern without anchors whose
  matches are never empty: at a match continue behind it, otherwise keep one character.
\<close>

lemma re_sub_rec:
  assumes af: "Bol \<notin> set its" "Eol \<notin> set its"
    and dec: "\<And>b1 r s. (b1, r) \<in> set (m_seq its (True, s)) \<Longrightarrow> length r < length s"
  shows "re_sub [its] [] True s =
           (if s = [] then []
            else if m_seq its (True, s) \<noteq> []
                 then re_sub [its] [] True (snd (hd (m_seq its (True, s))))
                 else hd s # re_sub [its] [] True (tl s))"
proof (cases s)
  case Nil
  then show ?thesis by (simp add: re_sub_Nil)
next
  case (Cons c cs)
  show ?thesis
  proof (cases "m_seq its (True, s)")
    case Nil
    then show ?thesis
      using re_sub_flag [OF af, of "[]" "c = 10" cs True]
      by (simp add: Cons re_sub_Cons m_alt_def)
  next
    case x: (Cons x xs)
    then have "(fst x, snd x) \<in> set (m_seq its (True, s))" by simp
    then have "length (snd x) < length s" by (rule dec)
    then show ?thesis
      using x re_sub_flag [OF af, of "[]" "fst x" "snd x" True]
      by (simp add: Cons re_sub_Cons m_alt_def)
  qed
qed

subsection \<open>Scanning twice\<close>

text \<open>
  A scan \<open>f\<close> that drops the match at a position (\<open>M\<close>: there is one, \<open>rem\<close>: what follows
  it) and otherwise keeps a character. If gluing a text \<open>v\<close> to what follows a match
  never creates a match of \<open>N\<close> that was not there with the match in place, then a match
  of \<open>N\<close> in the output of the scan comes from one in its input.
\<close>

lemma scan_reflects:
  fixes f :: "'a list \<Rightarrow> 'a list"
  assumes rec: "\<And>s. f s = (if s = [] then [] else if M s then f (rem s) else hd s # f (tl s))"
    and dec: "\<And>s. M s \<Longrightarrow> length (rem s) < length s"
    and glue: "\<And>s v. M s \<Longrightarrow> N (v @ rem s) \<Longrightarrow> N (v @ s)"
  shows "N (v @ f s) \<Longrightarrow> N (v @ s)"
proof (induction s arbitrary: v rule: length_induct)
  case (1 s)
  show ?case
  proof (cases "s = []")
    case True
    with "1.prems" rec [of s] show ?thesis by simp
  next
    case False
    show ?thesis
    proof (cases "M s")
      case True
      then have "f s = f (rem s)" using rec [of s] False by simp
      with "1.prems" have "N (v @ f (rem s))" by simp
      then have "N (v @ rem s)" using "1.IH" dec [OF True] by blast
      then show ?thesis using glue True by blast
    next
      case F2: False
      obtain c cs where s: "s = c # cs" using False by (cases s) auto
      have "f s = c # f cs" using rec [of s] F2 s by simp
      with "1.prems" have "N ((v @ [c]) @ f cs)" by simp
      moreover have "length cs < length s" using s by simp
      ultimately have "N ((v @ [c]) @ cs)" using "1.IH" by blast
      then show ?thesis using s by simp
    qed
  qed
qed

lemma scan_leaves_no_match:
  fixes f :: "'a list \<Rightarrow> 'a list"
  assumes rec: "\<And>s. f s = (if s = [] then [] else if M s then f (rem s) else hd s # f (tl s))"
    and dec: "\<And>s. M s \<Longrightarrow> length (rem s) < length s"
    and glue: "\<And>s v. M s \<Longrightarrow> M (v @ rem s) \<Longrightarrow> M (v @ s)"
  shows "f s = v @ u \<Longrightarrow> \<not> M u"
proof (induction s arbitrary: v u rule: length_induct)
  case (1 s)
  show ?case
  proof (cases "s = []")
    case True
    with "1.prems" rec [of s] have "u = []" by simp
    then show ?thesis using dec [of "[]"] by auto
  next
    case False
    show ?thesis
    proof (cases "M s")
      case True
      then have "f (rem s) = v @ u" using rec [of s] False "1.prems" by simp
      then show ?thesis using "1.IH" dec [OF True] by blast
    next
      case F2: False
      obtain c cs where s: "s = c # cs" using False by (cases s) auto
      have fs: "f s = c # f cs" using rec [of s] F2 s by simp
      show ?thesis
      proof (cases v)
        case Nil
        with fs "1.prems" have u: "u = [c] @ f cs" by simp
        show ?thesis
        proof
          assume "M u"
          then have mu: "M ([c] @ f cs)" using u by simp
          have "M ([c] @ cs)"
            by (rule scan_reflects [where f = f and M = M and rem = rem and N = M, OF rec])
               (erule dec, erule (1) glue, rule mu)
          with F2 s show False by simp
        qed
      next
        case (Cons d v')
        with fs "1.prems" have "f cs = v' @ u" by simp
        moreover have "length cs < length s" using s by simp
        ultimately show ?thesis using "1.IH" by blast
      qed
    qed
  qed
qed

lemma scan_keeps_no_match:
  fixes f :: "'a list \<Rightarrow> 'a list"
  assumes rec: "\<And>s. f s = (if s = [] then [] else if M s then f (rem s) else hd s # f (tl s))"
    and dec: "\<And>s. M s \<Longrightarrow> length (rem s) < length s"
    and suf: "\<And>s. M s \<Longrightarrow> \<exists>m. s = m @ rem s"
    and glue: "\<And>s v. M s \<Longrightarrow> N (v @ rem s) \<Longrightarrow> N (v @ s)"
  shows "(\<And>v u. s = v @ u \<Longrightarrow> \<not> N u) \<Longrightarrow> f s = v @ u \<Longrightarrow> \<not> N u"
proof (induction s arbitrary: v u rule: length_induct)
  case (1 s)
  note none = "1.prems"(1) and out = "1.prems"(2)
  show ?case
  proof (cases "s = []")
    case True
    with out rec [of s] have "u = []" by simp
    then show ?thesis using none [of "[]" "[]"] True by simp
  next
    case False
    show ?thesis
    proof (cases "M s")
      case True
      then have o: "f (rem s) = v @ u" using rec [of s] False out by simp
      from suf [OF True] obtain m where m: "s = m @ rem s" by blast
      have n: "\<not> N u'" if "rem s = v' @ u'" for v' u'
      proof -
        from that m have "s = (m @ v') @ u'" by simp
        then show ?thesis by (rule none)
      qed
      from "1.IH" dec [OF True] n o show ?thesis by blast
    next
      case F2: False
      obtain c cs where s: "s = c # cs" using False by (cases s) auto
      have fs: "f s = c # f cs" using rec [of s] F2 s by simp
      show ?thesis
      proof (cases v)
        case Nil
        with fs out have u: "u = [c] @ f cs" by simp
        show ?thesis
        proof
          assume "N u"
          then have nu: "N ([c] @ f cs)" using u by simp
          have "N ([c] @ cs)"
            by (rule scan_reflects [where f = f and M = M and rem = rem and N = N, OF rec])
               (erule dec, erule (1) glue, rule nu)
          moreover have "\<not> N s" using none [of "[]" s] by simp
          ultimately show False using s by simp
        qed
      next
        case (Cons d v')
        with fs out have o: "f cs = v' @ u" by simp
        have l: "length cs < length s" using s by simp
        have n: "\<not> N u'" if "cs = v' @ u'" for v' u'
        proof -
          from that s have "s = (c # v') @ u'" by simp
          then show ?thesis by (rule none)
        qed
        from "1.IH" l n o show ?thesis by blast
      qed
    qed
  qed
qed

lemma scan_fixed:
  fixes f :: "'a list \<Rightarrow> 'a list"
  assumes rec: "\<And>s. f s = (if s = [] then [] else if M s then f (rem s) else hd s # f (tl s))"
  shows "(\<And>v u. t = v @ u \<Longrightarrow> \<not> M u) \<Longrightarrow> f t = t"
proof (induction t)
  case Nil
  show ?case using rec [of "[]"] by simp
next
  case (Cons c cs)
  have "\<not> M (c # cs)" using Cons.prems [of "[]" "c # cs"] by simp
  then have "f (c # cs) = c # f cs" using rec [of "c # cs"] by simp
  moreover have "f cs = cs"
  proof (rule Cons.IH)
    fix v u assume "cs = v @ u"
    then have "c # cs = (c # v) @ u" by simp
    then show "\<not> M u" by (rule Cons.prems)
  qed
  ultimately show ?case by simp
qed

text \<open>
  The junction argument: every match of \<open>N\<close> begins with a stretch \<open>w\<close> that is a match
  wherever it stands and whose characters after the first belong to the class \<open>T\<close>; the
  text \<open>r\<close> is empty or begins outside \<open>T\<close>. Then a match of \<open>N\<close> in \<open>v @ r\<close>, with \<open>v\<close> not
  empty, lies within \<open>v\<close>.
\<close>

lemma junction:
  assumes wit: "\<And>x. N x \<Longrightarrow>
      \<exists>w. w \<noteq> [] \<and> (\<exists>z. x = w @ z) \<and> (\<forall>c\<in>set (tl w). T c) \<and> (\<forall>y. N (w @ y))"
    and Q: "r = [] \<or> \<not> T (hd r)"
    and v: "v \<noteq> []" and N: "N (v @ r)"
  shows "N (v @ s)"
proof -
  from wit [OF N] obtain w z where w: "w \<noteq> []" "v @ r = w @ z" "\<forall>c\<in>set (tl w). T c"
    "\<forall>y. N (w @ y)" by blast
  from w(2) obtain us where d: "(v = w @ us \<and> us @ r = z) \<or> (v @ us = w \<and> r = us @ z)"
    by (auto simp: append_eq_append_conv2)
  show ?thesis
  proof (cases "\<exists>us'. v = w @ us'")
    case True
    then show ?thesis using w(4) by auto
  next
    case False
    with d have 2: "v @ us = w" "r = us @ z" by auto
    with False have ne: "us \<noteq> []" by auto
    then have "hd r = hd us" "r \<noteq> []" using 2 by auto
    moreover have "hd us \<in> set (tl w)" using 2 v ne by (cases v; cases us) auto
    ultimately show ?thesis using Q w(3) by auto
  qed
qed

subsection \<open>Stripping with a pattern without anchors\<close>

lemma hd_state_mem: "xs \<noteq> [] \<Longrightarrow> (fst (hd xs), snd (hd xs)) \<in> set xs"
  by simp

lemma m_alt_single: "m_alt [its] st = m_seq its st"
  by (simp add: m_alt_def)

lemma first_item_shorter:
  assumes af: "Bol \<notin> set its" "Eol \<notin> set its"
    and first: "its \<noteq> []" "hd its = Rep p lo hi" "0 < lo"
  shows "\<forall>b1 r s. (b1, r) \<in> set (m_seq its (True, s)) \<longrightarrow> length r < length s"
proof (intro allI impI)
  fix b1 r s
  assume mem: "(b1, r) \<in> set (m_seq its (True, s))"
  from first obtain its1 where its: "its = Rep p lo hi # its1" by (cases its) auto
  have "Bol \<notin> set its1" "Eol \<notin> set its1" using af its by auto
  from m_seq_shorter [OF this mem [unfolded its] first(3)] show "length r < length s" .
qed

lemma strip_rec:
  assumes af: "Bol \<notin> set its" "Eol \<notin> set its"
    and dec: "\<forall>b1 r s. (b1, r) \<in> set (m_seq its (True, s)) \<longrightarrow> length r < length s"
  shows "re_sub [its] [] True s =
           (if s = [] then []
            else if m_seq its (True, s) \<noteq> []
                 then re_sub [its] [] True (snd (hd (m_seq its (True, s))))
                 else hd s # re_sub [its] [] True (tl s))"
    and "m_seq its (True, s) \<noteq> [] \<Longrightarrow> length (snd (hd (m_seq its (True, s)))) < length s"
    and "m_seq its (True, s) \<noteq> [] \<Longrightarrow> \<exists>m. s = m @ snd (hd (m_seq its (True, s)))"
proof -
  have dec': "length r < length s" if "(b1, r) \<in> set (m_seq its (True, s))" for b1 r s
    using dec that by blast
  show "re_sub [its] [] True s =
           (if s = [] then []
            else if m_seq its (True, s) \<noteq> []
                 then re_sub [its] [] True (snd (hd (m_seq its (True, s))))
                 else hd s # re_sub [its] [] True (tl s))"
    by (rule re_sub_rec [OF af]) (erule dec')
  show "length (snd (hd (m_seq its (True, s)))) < length s" if "m_seq its (True, s) \<noteq> []"
    using dec' [OF hd_state_mem [OF that]] .
  show "\<exists>m. s = m @ snd (hd (m_seq its (True, s)))" if "m_seq its (True, s) \<noteq> []"
    using m_seq_consumes [OF af hd_state_mem [OF that]] by blast
qed

text \<open>After stripping, the pattern matches nowhere in the text.\<close>

lemma strip_leaves_no_match:
  assumes af: "Bol \<notin> set its" "Eol \<notin> set its"
    and dec: "\<forall>b1 r s. (b1, r) \<in> set (m_seq its (True, s)) \<longrightarrow> length r < length s"
    and glue: "\<forall>s v. m_seq its (True, s) \<noteq> [] \<longrightarrow>
                 m_seq its (True, v @ snd (hd (m_seq its (True, s)))) \<noteq> [] \<longrightarrow>
                 m_seq its (True, v @ s) \<noteq> []"
    and out: "re_sub [its] [] True s = v @ u"
  shows "m_seq its (True, u) = []"
proof -
  note r = strip_rec [OF af dec]
  have g: "m_seq its (True, v @ s) \<noteq> []"
    if "m_seq its (True, s) \<noteq> []" "m_seq its (True, v @ snd (hd (m_seq its (True, s)))) \<noteq> []"
    for s v
    using glue that by blast
  have "\<not> m_seq its (True, u) \<noteq> []"
    by (rule scan_leaves_no_match [where f = "re_sub [its] [] True"
          and M = "\<lambda>s. m_seq its (True, s) \<noteq> []"
          and rem = "\<lambda>s. snd (hd (m_seq its (True, s)))", OF r(1)])
       (erule r(2), erule (1) g, rule out)
  then show ?thesis by simp
qed

text \<open>Stripping with one pattern creates no match of another.\<close>

lemma strip_keeps_no_match:
  assumes af: "Bol \<notin> set its" "Eol \<notin> set its"
    and dec: "\<forall>b1 r s. (b1, r) \<in> set (m_seq its (True, s)) \<longrightarrow> length r < length s"
    and glue: "\<forall>s v. m_seq its (True, s) \<noteq> [] \<longrightarrow>
                 m_seq its' (True, v @ snd (hd (m_seq its (True, s)))) \<noteq> [] \<longrightarrow>
                 m_seq its' (True, v @ s) \<noteq> []"
    and none: "\<forall>v u. s = v @ u \<longrightarrow> m_seq its' (True, u) = []"
    and out: "re_sub [its] [] True s = v @ u"
  shows "m_seq its' (True, u) = []"
proof -
  note r = strip_rec [OF af dec]
  have g: "m_seq its' (True, v @ s) \<noteq> []"
    if "m_seq its (True, s) \<noteq> []" "m_seq its' (True, v @ snd (hd (m_seq its (True, s)))) \<noteq> []"
    for s v
    using glue that by blast
  have n: "\<not> m_seq its' (True, u) \<noteq> []" if "s = v @ u" for v u
    using none that by blast
  have "\<not> m_seq its' (True, u) \<noteq> []"
    by (rule scan_keeps_no_match [where f = "re_sub [its] [] True"
          and M = "\<lambda>s. m_seq its (True, s) \<noteq> []"
          and rem = "\<lambda>s. snd (hd (m_seq its (True, s)))"
          and N = "\<lambda>s. m_seq its' (True, s) \<noteq> []" and s = s, OF r(1)])
       (erule r(2), erule r(3), erule (1) g, erule n, rule out)
  then show ?thesis by simp
qed

text \<open>Where the pattern matches nowhere, stripping changes nothing.\<close>

lemma strip_fixed:
  assumes af: "Bol \<notin> set its" "Eol \<notin> set its"
    and dec: "\<forall>b1 r s. (b1, r) \<in> set (m_seq its (True, s)) \<longrightarrow> length r < length s"
    and none: "\<forall>v u. t = v @ u \<longrightarrow> m_seq its (True, u) = []"
  shows "re_sub [its] [] True t = t"
proof -
  note r = strip_rec [OF af dec]
  have n: "\<not> m_seq its (True, u) \<noteq> []" if "t = v @ u" for v u
    using none that by blast
  show ?thesis
    by (rule scan_fixed [where f = "re_sub [its] [] True"
          and M = "\<lambda>s. m_seq its (True, s) \<noteq> []"
          and rem = "\<lambda>s. snd (hd (m_seq its (True, s)))", OF r(1)])
       (erule n)
qed

lemma strip_idem:
  assumes af: "Bol \<notin> set its" "Eol \<notin> set its"
    and dec: "\<forall>b1 r s. (b1, r) \<in> set (m_seq its (True, s)) \<longrightarrow> length r < length s"
    and glue: "\<forall>s v. m_seq its (True, s) \<noteq> [] \<longrightarrow>
                 m_seq its (True, v @ snd (hd (m_seq its (True, s)))) \<noteq> [] \<longrightarrow>
                 m_seq its (True, v @ s) \<noteq> []"
  shows "re_sub [its] [] True (re_sub [its] [] True s) = re_sub [its] [] True s"
proof (rule strip_fixed [OF af dec])
  show "\<forall>v u. re_sub [its] [] True s = v @ u \<longrightarrow> m_seq its (True, u) = []"
    using strip_leaves_no_match [OF af dec glue] by blast
qed

subsection \<open>Patterns that end in a greedy class\<close>

lemma tail_first_rem:
  assumes "its \<noteq> []" "last its = Rep T lo None" "m_seq its st \<noteq> []"
  shows "snd (hd (m_seq its st)) = [] \<or> \<not> T (hd (snd (hd (m_seq its st))))"
proof -
  from assms(3) obtain x xs where x: "m_seq its st = x # xs"
    by (cases "m_seq its st") auto
  have "butlast its @ [Rep T lo None] = its"
    using assms(1,2) append_butlast_last_id [of its] by simp
  with x have "m_seq (butlast its @ [Rep T lo None]) st = x # xs" by simp
  then have "snd x = [] \<or> \<not> T (hd (snd x))" by (rule m_seq_greedy_hd)
  then show ?thesis by (simp add: x)
qed

lemma tail_glue:
  assumes last: "its \<noteq> []" "last its = Rep T lo None"
    and wit: "\<forall>x. m_seq its' (True, x) \<noteq> [] \<longrightarrow>
                (\<exists>w. w \<noteq> [] \<and> (\<exists>z. x = w @ z) \<and> (\<forall>c\<in>set (tl w). T c)
                     \<and> (\<forall>y. m_seq its' (True, w @ y) \<noteq> []))"
    and emp: "\<forall>s. m_seq its (True, s) \<noteq> [] \<longrightarrow>
                m_seq its' (True, snd (hd (m_seq its (True, s)))) \<noteq> [] \<longrightarrow>
                m_seq its' (True, s) \<noteq> []"
  shows "\<forall>s v. m_seq its (True, s) \<noteq> [] \<longrightarrow>
           m_seq its' (True, v @ snd (hd (m_seq its (True, s)))) \<noteq> [] \<longrightarrow>
           m_seq its' (True, v @ s) \<noteq> []"
proof (intro allI impI)
  fix s v
  assume M: "m_seq its (True, s) \<noteq> []"
  define r where "r = snd (hd (m_seq its (True, s)))"
  assume "m_seq its' (True, v @ snd (hd (m_seq its (True, s)))) \<noteq> []"
  then have N: "m_seq its' (True, v @ r) \<noteq> []" by (simp add: r_def)
  have Q: "r = [] \<or> \<not> T (hd r)" unfolding r_def by (rule tail_first_rem [OF last M])
  show "m_seq its' (True, v @ s) \<noteq> []"
  proof (cases "v = []")
    case True
    with emp M N show ?thesis by (simp add: r_def)
  next
    case False
    show ?thesis
    proof (rule junction [where N = "\<lambda>x. m_seq its' (True, x) \<noteq> []" and T = T and r = r])
      fix x
      assume "m_seq its' (True, x) \<noteq> []"
      then show "\<exists>w. w \<noteq> [] \<and> (\<exists>z. x = w @ z) \<and> (\<forall>c\<in>set (tl w). T c)
                     \<and> (\<forall>y. m_seq its' (True, w @ y) \<noteq> [])"
        using wit by blast
    next
      show "r = [] \<or> \<not> T (hd r)" by (rule Q)
    next
      show "v \<noteq> []" by (rule False)
    next
      show "m_seq its' (True, v @ r) \<noteq> []" by (rule N)
    qed
  qed
qed

text \<open>Every match begins with a stretch that is a match wherever it stands.\<close>

lemma wit_all:
  assumes af: "Bol \<notin> set its" "Eol \<notin> set its"
    and dec: "\<forall>b1 r s. (b1, r) \<in> set (m_seq its (True, s)) \<longrightarrow> length r < length s"
    and cls: "\<forall>p lo hi. Rep p lo hi \<in> set its \<longrightarrow> (\<forall>c. p c \<longrightarrow> T c)"
  shows "\<forall>x. m_seq its (True, x) \<noteq> [] \<longrightarrow>
           (\<exists>w. w \<noteq> [] \<and> (\<exists>z. x = w @ z) \<and> (\<forall>c\<in>set w. T c)
                \<and> (\<forall>y. m_seq its (True, w @ y) \<noteq> []))"
proof (intro allI impI)
  fix x
  assume M: "m_seq its (True, x) \<noteq> []"
  define r where "r = snd (hd (m_seq its (True, x)))"
  define b1 where "b1 = fst (hd (m_seq its (True, x)))"
  have mem: "(b1, r) \<in> set (m_seq its (True, x))"
    unfolding r_def b1_def by (rule hd_state_mem [OF M])
  from m_seq_consumes [OF af mem] obtain w where w: "x = w @ r"
    "\<forall>c\<in>set w. \<exists>p lo hi. Rep p lo hi \<in> set its \<and> p c"
    "\<forall>y b0. \<exists>b2. (b2, y) \<in> set (m_seq its (b0, w @ y))"
    by blast
  have "length r < length x" using dec mem by blast
  then have 1: "w \<noteq> []" using w(1) by auto
  have 2: "\<forall>c\<in>set w. T c" using w(2) cls by blast
  have 3: "m_seq its (True, w @ y) \<noteq> []" for y
  proof -
    from w(3) obtain b2 where "(b2, y) \<in> set (m_seq its (True, w @ y))" by blast
    then show ?thesis by auto
  qed
  from 1 2 3 w(1) show "\<exists>w. w \<noteq> [] \<and> (\<exists>z. x = w @ z) \<and> (\<forall>c\<in>set w. T c)
                \<and> (\<forall>y. m_seq its (True, w @ y) \<noteq> [])"
    by blast
qed

lemma wit_lit:
  assumes af: "Bol \<notin> set its" "Eol \<notin> set its"
    and cls: "\<forall>p lo hi. Rep p lo hi \<in> set its \<longrightarrow> (\<forall>c. p c \<longrightarrow> T c)"
  shows "\<forall>x. m_seq (Lit a # its) (True, x) \<noteq> [] \<longrightarrow>
           (\<exists>w. w \<noteq> [] \<and> (\<exists>z. x = w @ z) \<and> (\<forall>c\<in>set (tl w). T c)
                \<and> (\<forall>y. m_seq (Lit a # its) (True, w @ y) \<noteq> []))"
proof (intro allI impI)
  fix x
  assume M: "m_seq (Lit a # its) (True, x) \<noteq> []"
  then have c: "(case x of [] \<Rightarrow> [] | d # ds \<Rightarrow> if d = a then m_seq its (d = 10, ds) else []) \<noteq> []"
    unfolding m_seq_Lit .
  have "\<exists>ds. x = a # ds \<and> m_seq its (a = 10, ds) \<noteq> []"
  proof (cases x)
    case Nil
    with c show ?thesis by simp
  next
    case (Cons d ds)
    with c show ?thesis by (cases "d = a") simp_all
  qed
  then obtain ds where x: "x = a # ds" and M': "m_seq its (a = 10, ds) \<noteq> []"
    by blast
  define r where "r = snd (hd (m_seq its (a = 10, ds)))"
  define b1 where "b1 = fst (hd (m_seq its (a = 10, ds)))"
  have mem: "(b1, r) \<in> set (m_seq its (a = 10, ds))"
    unfolding r_def b1_def by (rule hd_state_mem [OF M'])
  from m_seq_consumes [OF af mem] obtain w where w: "ds = w @ r"
    "\<forall>c\<in>set w. \<exists>p lo hi. Rep p lo hi \<in> set its \<and> p c"
    "\<forall>y b0. \<exists>b2. (b2, y) \<in> set (m_seq its (b0, w @ y))"
    by blast
  have 1: "x = (a # w) @ r" using x w(1) by simp
  have 2: "\<forall>c\<in>set (tl (a # w)). T c" using w(2) cls by auto
  have 3: "m_seq (Lit a # its) (True, (a # w) @ y) \<noteq> []" for y
  proof -
    from w(3) obtain b2 where "(b2, y) \<in> set (m_seq its (a = 10, w @ y))" by blast
    then have "m_seq its (a = 10, w @ y) \<noteq> []" by auto
    moreover have "m_seq (Lit a # its) (True, (a # w) @ y) = m_seq its (a = 10, w @ y)"
      by (subst m_seq_Lit) simp
    ultimately show ?thesis by simp
  qed
  have "a # w \<noteq> [] \<and> (\<exists>z. x = (a # w) @ z) \<and> (\<forall>c\<in>set (tl (a # w)). T c)
          \<and> (\<forall>y. m_seq (Lit a # its) (True, (a # w) @ y) \<noteq> [])"
    using 1 2 3 by blast
  then show "\<exists>w. w \<noteq> [] \<and> (\<exists>z. x = w @ z) \<and> (\<forall>c\<in>set (tl w). T c)
                \<and> (\<forall>y. m_seq (Lit a # its) (True, w @ y) \<noteq> [])"
    by (rule exI)
qed

subsection \<open>Hashtags and mentions\<close>

lemma tag_idem:
  "re_sub [[Lit a, Plus W]] [] True (re_sub [[Lit a, Plus W]] [] True s)
     = re_sub [[Lit a, Plus W]] [] True s"
proof -
  have af: "Bol \<notin> set [Lit a, Plus W]" "Eol \<notin> set [Lit a, Plus W]"
    by (simp_all add: Lit_def Plus_def)
  have dec: "\<forall>b1 r s. (b1, r) \<in> set (m_seq [Lit a, Plus W] (True, s)) \<longrightarrow> length r < length s"
    by (rule first_item_shorter [OF af, of "\<lambda>x. x = a" 1 "Some 1"]) (simp_all add: Lit_def)
  have wit: "\<forall>x. m_seq (Lit a # [Plus W]) (True, x) \<noteq> [] \<longrightarrow>
           (\<exists>w. w \<noteq> [] \<and> (\<exists>z. x = w @ z) \<and> (\<forall>c\<in>set (tl w). W c)
                \<and> (\<forall>y. m_seq (Lit a # [Plus W]) (True, w @ y) \<noteq> []))"
    by (rule wit_lit) (simp_all add: Plus_def)
  have glue: "\<forall>s v. m_seq [Lit a, Plus W] (True, s) \<noteq> [] \<longrightarrow>
           m_seq [Lit a, Plus W] (True, v @ snd (hd (m_seq [Lit a, Plus W] (True, s)))) \<noteq> [] \<longrightarrow>
           m_seq [Lit a, Plus W] (True, v @ s) \<noteq> []"
    by (rule tail_glue [where T = W and lo = 1, OF _ _ wit]) (simp_all add: Plus_def)
  show ?thesis by (rule strip_idem [OF af dec glue])
qed

subsection \<open>Emojis\<close>

lemma class_idem:
  "re_sub [[Plus E]] [] True (re_sub [[Plus E]] [] True s) = re_sub [[Plus E]] [] True s"
proof -
  have af: "Bol \<notin> set [Plus E]" "Eol \<notin> set [Plus E]"
    by (simp_all add: Plus_def)
  have dec: "\<forall>b1 r s. (b1, r) \<in> set (m_seq [Plus E] (True, s)) \<longrightarrow> length r < length s"
    by (rule first_item_shorter [OF af, of E 1 None]) (simp_all add: Plus_def)
  have wa: "\<forall>x. m_seq [Plus E] (True, x) \<noteq> [] \<longrightarrow>
           (\<exists>w. w \<noteq> [] \<and> (\<exists>z. x = w @ z) \<and> (\<forall>c\<in>set w. E c)
                \<and> (\<forall>y. m_seq [Plus E] (True, w @ y) \<noteq> []))"
    by (rule wit_all [OF af dec]) (simp add: Plus_def)
  have wit: "\<forall>x. m_seq [Plus E] (True, x) \<noteq> [] \<longrightarrow>
           (\<exists>w. w \<noteq> [] \<and> (\<exists>z. x = w @ z) \<and> (\<forall>c\<in>set (tl w). E c)
                \<and> (\<forall>y. m_seq [Plus E] (True, w @ y) \<noteq> []))"
  proof (intro allI impI)
    fix x
    assume "m_seq [Plus E] (True, x) \<noteq> []"
    with wa obtain w where w: "w \<noteq> []" "\<exists>z. x = w @ z" "\<forall>c\<in>set w. E c"
      "\<forall>y. m_seq [Plus E] (True, w @ y) \<noteq> []" by blast
    have "\<forall>c\<in>set (tl w). E c" using w(1,3) by (auto dest: list.set_sel(2))
    with w show "\<exists>w. w \<noteq> [] \<and> (\<exists>z. x = w @ z) \<and> (\<forall>c\<in>set (tl w). E c)
                \<and> (\<forall>y. m_seq [Plus E] (True, w @ y) \<noteq> [])" by blast
  qed
  have glue: "\<forall>s v. m_seq [Plus E] (True, s) \<noteq> [] \<longrightarrow>
           m_seq [Plus E] (True, v @ snd (hd (m_seq [Plus E] (True, s)))) \<noteq> [] \<longrightarrow>
           m_seq [Plus E] (True, v @ s) \<noteq> []"
    by (rule tail_glue [where T = E and lo = 1, OF _ _ wit]) (simp_all add: Plus_def)
  show ?thesis by (rule strip_idem [OF af dec glue])
qed

lemma mem_nonempty: "x \<in> set xs \<Longrightarrow> xs \<noteq> []"
  by auto

lemma wit_tl:
  assumes "\<forall>x. P x \<longrightarrow> (\<exists>w. w \<noteq> [] \<and> (\<exists>z. x = w @ z) \<and> (\<forall>c\<in>set w. T c) \<and> (\<forall>y. P (w @ y)))"
  shows "\<forall>x. P x \<longrightarrow> (\<exists>w. w \<noteq> [] \<and> (\<exists>z. x = w @ z) \<and> (\<forall>c\<in>set (tl w). T c) \<and> (\<forall>y. P (w @ y)))"
proof (intro allI impI)
  fix x
  assume "P x"
  with assms obtain w where w: "w \<noteq> []" "\<exists>z. x = w @ z" "\<forall>c\<in>set w. T c" "\<forall>y. P (w @ y)"
    by blast
  have "\<forall>c\<in>set (tl w). T c" using w(1,3) by (auto dest: list.set_sel(2))
  with w show "\<exists>w. w \<noteq> [] \<and> (\<exists>z. x = w @ z) \<and> (\<forall>c\<in>set (tl w). T c) \<and> (\<forall>y. P (w @ y))"
    by blast
qed

subsection \<open>Links\<close>

text \<open>
  What the five link patterns have in common: no anchors, a literal first, the greedy
  class \<open>\S+\<close> last, and nothing but characters that are not whitespace in between.
\<close>

lemma link_like:
  assumes "pat \<in> {pat_link1 U, pat_link2 U, pat_link3 U, pat_link4 U, pat_link5 U}"
  shows "\<exists>its. pat = [its] \<and> Bol \<notin> set its \<and> Eol \<notin> set its \<and> its \<noteq> []
           \<and> (\<exists>p lo hi. hd its = Rep p lo hi \<and> 0 < lo)
           \<and> last its = Rep (nonspace U) 1 None
           \<and> (\<forall>p lo hi. Rep p lo hi \<in> set its \<longrightarrow> (\<forall>c. p c \<longrightarrow> nonspace U c))"
proof -
  from assms consider "pat = pat_link1 U" | "pat = pat_link2 U" | "pat = pat_link3 U"
    | "pat = pat_link4 U" | "pat = pat_link5 U"
    by auto
  then show ?thesis
  proof cases
    case 1
    then show ?thesis
      by (auto simp: pat_link1_def lits_def ustr_def Lit_def Opt_def Plus_def nonspace_def
          is_space_def)
  next
    case 2
    then show ?thesis
      by (auto simp: pat_link2_def lits_def ustr_def Lit_def Opt_def Plus_def nonspace_def
          is_space_def)
  next
    case 3
    then show ?thesis
      by (auto simp: pat_link3_def lits_def ustr_def Lit_def Opt_def Plus_def nonspace_def
          is_space_def)
  next
    case 4
    then show ?thesis
      by (auto simp: pat_link4_def lits_def ustr_def Lit_def Opt_def Plus_def nonspace_def
          is_space_def)
  next
    case 5
    then show ?thesis
      by (auto simp: pat_link5_def lits_def ustr_def Lit_def Opt_def Plus_def nonspace_def
          is_space_def)
  qed
qed

lemma link_glue:
  assumes a: "its \<noteq> []" "last its = Rep (nonspace U) 1 None"
    and b: "Bol \<notin> set its'" "Eol \<notin> set its'" "its' \<noteq> []" "hd its' = Rep p lo hi" "0 < lo"
      "\<forall>p lo hi. Rep p lo hi \<in> set its' \<longrightarrow> (\<forall>c. p c \<longrightarrow> nonspace U c)"
  shows "\<forall>s v. m_seq its (True, s) \<noteq> [] \<longrightarrow>
           m_seq its' (True, v @ snd (hd (m_seq its (True, s)))) \<noteq> [] \<longrightarrow>
           m_seq its' (True, v @ s) \<noteq> []"
proof -
  have dec': "\<forall>b1 r s. (b1, r) \<in> set (m_seq its' (True, s)) \<longrightarrow> length r < length s"
    by (rule first_item_shorter [OF b(1,2,3,4,5)])
  have wa: "\<forall>x. m_seq its' (True, x) \<noteq> [] \<longrightarrow>
           (\<exists>w. w \<noteq> [] \<and> (\<exists>z. x = w @ z) \<and> (\<forall>c\<in>set w. nonspace U c)
                \<and> (\<forall>y. m_seq its' (True, w @ y) \<noteq> []))"
    by (rule wit_all [OF b(1,2) dec' b(6)])
  have wit: "\<forall>x. m_seq its' (True, x) \<noteq> [] \<longrightarrow>
           (\<exists>w. w \<noteq> [] \<and> (\<exists>z. x = w @ z) \<and> (\<forall>c\<in>set (tl w). nonspace U c)
                \<and> (\<forall>y. m_seq its' (True, w @ y) \<noteq> []))"
    by (rule wit_tl [where P = "\<lambda>x. m_seq its' (True, x) \<noteq> []", OF wa])
  have emp: "\<forall>s. m_seq its (True, s) \<noteq> [] \<longrightarrow>
                m_seq its' (True, snd (hd (m_seq its (True, s)))) \<noteq> [] \<longrightarrow>
                m_seq its' (True, s) \<noteq> []"
  proof (intro allI impI)
    fix s
    assume M: "m_seq its (True, s) \<noteq> []"
    define r where "r = snd (hd (m_seq its (True, s)))"
    assume "m_seq its' (True, snd (hd (m_seq its (True, s)))) \<noteq> []"
    then have N: "m_seq its' (True, r) \<noteq> []" by (simp add: r_def)
    have Q: "r = [] \<or> \<not> nonspace U (hd r)" unfolding r_def by (rule tail_first_rem [OF a M])
    from N wa obtain w z where w: "w \<noteq> []" "r = w @ z" "\<forall>c\<in>set w. nonspace U c" by blast
    then have "r \<noteq> []" "nonspace U (hd r)" by (cases w; simp)+
    with Q show "m_seq its' (True, s) \<noteq> []" by simp
  qed
  show ?thesis by (rule tail_glue [OF a wit emp])
qed

text \<open>
  Stripping with one link pattern leaves no match of that pattern and creates no match
  of another; where a link pattern matches nowhere, stripping with it changes nothing.
\<close>

lemma link_strip:
  assumes p: "pat \<in> {pat_link1 U, pat_link2 U, pat_link3 U, pat_link4 U, pat_link5 U}"
    and p': "pat' \<in> {pat_link1 U, pat_link2 U, pat_link3 U, pat_link4 U, pat_link5 U}"
  shows "\<forall>s v u. re_sub pat [] True s = v @ u \<longrightarrow> m_alt pat (True, u) = []"
    and "\<forall>s. (\<forall>v u. s = v @ u \<longrightarrow> m_alt pat' (True, u) = []) \<longrightarrow>
             (\<forall>v u. re_sub pat [] True s = v @ u \<longrightarrow> m_alt pat' (True, u) = [])"
    and "\<forall>t. (\<forall>v u. t = v @ u \<longrightarrow> m_alt pat (True, u) = []) \<longrightarrow> re_sub pat [] True t = t"
proof -
  from link_like [OF p] obtain its q lo hi where its: "pat = [its]" "Bol \<notin> set its"
    "Eol \<notin> set its" "its \<noteq> []" "hd its = Rep q lo hi" "0 < lo"
    "last its = Rep (nonspace U) 1 None"
    "\<forall>p lo hi. Rep p lo hi \<in> set its \<longrightarrow> (\<forall>c. p c \<longrightarrow> nonspace U c)"
    by blast
  from link_like [OF p'] obtain its' q' lo' hi' where its': "pat' = [its']" "Bol \<notin> set its'"
    "Eol \<notin> set its'" "its' \<noteq> []" "hd its' = Rep q' lo' hi'" "0 < lo'"
    "last its' = Rep (nonspace U) 1 None"
    "\<forall>p lo hi. Rep p lo hi \<in> set its' \<longrightarrow> (\<forall>c. p c \<longrightarrow> nonspace U c)"
    by blast
  have dec: "\<forall>b1 r s. (b1, r) \<in> set (m_seq its (True, s)) \<longrightarrow> length r < length s"
    by (rule first_item_shorter [OF its(2,3,4,5,6)])
  have self: "\<forall>s v. m_seq its (True, s) \<noteq> [] \<longrightarrow>
           m_seq its (True, v @ snd (hd (m_seq its (True, s)))) \<noteq> [] \<longrightarrow>
           m_seq its (True, v @ s) \<noteq> []"
    by (rule link_glue [OF its(4,7) its(2,3,4,5,6,8)])
  have cross: "\<forall>s v. m_seq its (True, s) \<noteq> [] \<longrightarrow>
           m_seq its' (True, v @ snd (hd (m_seq its (True, s)))) \<noteq> [] \<longrightarrow>
           m_seq its' (True, v @ s) \<noteq> []"
    by (rule link_glue [OF its(4,7) its'(2,3,4,5,6,8)])
  show "\<forall>s v u. re_sub pat [] True s = v @ u \<longrightarrow> m_alt pat (True, u) = []"
    unfolding its(1) m_alt_single
    using strip_leaves_no_match [OF its(2,3) dec self] by blast
  show "\<forall>s. (\<forall>v u. s = v @ u \<longrightarrow> m_alt pat' (True, u) = []) \<longrightarrow>
             (\<forall>v u. re_sub pat [] True s = v @ u \<longrightarrow> m_alt pat' (True, u) = [])"
    unfolding its(1) its'(1) m_alt_single
    using strip_keeps_no_match [OF its(2,3) dec cross] by blast
  show "\<forall>t. (\<forall>v u. t = v @ u \<longrightarrow> m_alt pat (True, u) = []) \<longrightarrow> re_sub pat [] True t = t"
    unfolding its(1) m_alt_single
    using strip_fixed [OF its(2,3) dec] by blast
qed

lemma link_step:
  assumes p: "pat \<in> {pat_link1 U, pat_link2 U, pat_link3 U, pat_link4 U, pat_link5 U}"
    and A: "A \<subseteq> {pat_link1 U, pat_link2 U, pat_link3 U, pat_link4 U, pat_link5 U}"
    and none: "\<forall>q\<in>A. \<forall>v u. s = v @ u \<longrightarrow> m_alt q (True, u) = []"
  shows "\<forall>q\<in>insert pat A. \<forall>v u. re_sub pat [] True s = v @ u \<longrightarrow> m_alt q (True, u) = []"
proof
  fix q
  assume "q \<in> insert pat A"
  then consider "q = pat" | "q \<in> A" by auto
  then show "\<forall>v u. re_sub pat [] True s = v @ u \<longrightarrow> m_alt q (True, u) = []"
  proof cases
    case 1
    then show ?thesis using link_strip(1) [OF p p] by blast
  next
    case 2
    then have q: "q \<in> {pat_link1 U, pat_link2 U, pat_link3 U, pat_link4 U, pat_link5 U}"
      using A by blast
    from 2 none have "\<forall>v u. s = v @ u \<longrightarrow> m_alt q (True, u) = []" by blast
    then show ?thesis using link_strip(2) [OF p q] by blast
  qed
qed

lemma strip_links_idem: "strip_links U (strip_links U t) = strip_links U t"
proof -
  define t1 where "t1 = re_sub (pat_link1 U) [] True t"
  define t2 where "t2 = re_sub (pat_link2 U) [] True t1"
  define t3 where "t3 = re_sub (pat_link3 U) [] True t2"
  define t4 where "t4 = re_sub (pat_link4 U) [] True t3"
  define t5 where "t5 = re_sub (pat_link5 U) [] True t4"
  have out: "strip_links U t = t5"
    by (simp add: strip_links_def t1_def t2_def t3_def t4_def t5_def)
  have n1: "\<forall>q\<in>insert (pat_link1 U) {}. \<forall>v u. t1 = v @ u \<longrightarrow> m_alt q (True, u) = []"
    unfolding t1_def by (rule link_step [where U = U and A = "{}"]) simp_all
  have n2: "\<forall>q\<in>insert (pat_link2 U) {pat_link1 U}.
              \<forall>v u. t2 = v @ u \<longrightarrow> m_alt q (True, u) = []"
    unfolding t2_def by (rule link_step [where U = U, OF _ _ n1]) simp_all
  have n3: "\<forall>q\<in>insert (pat_link3 U) {pat_link2 U, pat_link1 U}.
              \<forall>v u. t3 = v @ u \<longrightarrow> m_alt q (True, u) = []"
    unfolding t3_def by (rule link_step [where U = U, OF _ _ n2]) simp_all
  have n4: "\<forall>q\<in>insert (pat_link4 U) {pat_link3 U, pat_link2 U, pat_link1 U}.
              \<forall>v u. t4 = v @ u \<longrightarrow> m_alt q (True, u) = []"
    unfolding t4_def by (rule link_step [where U = U, OF _ _ n3]) simp_all
  have n5: "\<forall>q\<in>insert (pat_link5 U) {pat_link4 U, pat_link3 U, pat_link2 U, pat_link1 U}.
              \<forall>v u. t5 = v @ u \<longrightarrow> m_alt q (True, u) = []"
    unfolding t5_def by (rule link_step [where U = U, OF _ _ n4]) simp_all
  have fixed: "re_sub q [] True t5 = t5"
    if "q \<in> {pat_link1 U, pat_link2 U, pat_link3 U, pat_link4 U, pat_link5 U}" for q
  proof -
    from that n5 have "\<forall>v u. t5 = v @ u \<longrightarrow> m_alt q (True, u) = []" by blast
    then show ?thesis using link_strip(3) [OF that that] by blast
  qed
  have "strip_links U t5 = t5"
    by (simp add: strip_links_def fixed)
  then show ?thesis by (simp add: out)
qed

subsection \<open>Email addresses\<close>

lemma m_seq_Rep_mem:
  "(b1, r) \<in> set (m_seq (Rep p lo hi # its) (b, x))
     \<longleftrightarrow> (\<exists>b' x1. (b', x1) \<in> set (rep p lo hi b x) \<and> (b1, r) \<in> set (m_seq its (b', x1)))"
  by auto

lemma m_seq_Lit_mem:
  "(b1, r) \<in> set (m_seq (Lit c # its) (b, x))
     \<longleftrightarrow> (\<exists>ds. x = c # ds \<and> (b1, r) \<in> set (m_seq its (c = 10, ds)))"
  by (subst m_seq_Lit) (auto split: list.splits)

lemma email_mem:
  "(b1, r) \<in> set (m_seq [Plus L, Lit 64, Plus D, Lit 46, Plus T] (b, x))
     \<longleftrightarrow> (\<exists>b' x2 b'' x4. (b', 64 # x2) \<in> set (rep L 1 None b x)
            \<and> (b'', 46 # x4) \<in> set (rep D 1 None ((64::nat) = 10) x2)
            \<and> (b1, r) \<in> set (rep T 1 None ((46::nat) = 10) x4))"
  unfolding Plus_def m_seq_Rep_mem m_seq_Lit_mem m_seq_single m_item.simps by blast

text \<open>A match of the email pattern is a local part, \<open>@\<close>, a domain, a dot and a tail.\<close>

lemma email_sound:
  assumes "(b1, r) \<in> set (m_seq [Plus L, Lit 64, Plus D, Lit 46, Plus T] (b, x))"
  shows "\<exists>l d t. x = l @ 64 # d @ 46 # t @ r \<and> l \<noteq> [] \<and> (\<forall>c\<in>set l. L c)
           \<and> d \<noteq> [] \<and> (\<forall>c\<in>set d. D c) \<and> t \<noteq> [] \<and> (\<forall>c\<in>set t. T c)"
proof -
  from assms obtain b' x2 b'' x4 where 1: "(b', 64 # x2) \<in> set (rep L 1 None b x)"
    and 2: "(b'', 46 # x4) \<in> set (rep D 1 None ((64::nat) = 10) x2)"
    and 3: "(b1, r) \<in> set (rep T 1 None ((46::nat) = 10) x4)"
    unfolding email_mem by blast
  from rep_consumes [OF 1] obtain l where l: "x = l @ 64 # x2" "1 \<le> length l" "\<forall>c\<in>set l. L c"
    by blast
  from rep_consumes [OF 2] obtain d where d: "x2 = d @ 46 # x4" "1 \<le> length d" "\<forall>c\<in>set d. D c"
    by blast
  from rep_consumes [OF 3] obtain t where t: "x4 = t @ r" "1 \<le> length t" "\<forall>c\<in>set t. T c"
    by blast
  have "x = l @ 64 # d @ 46 # t @ r" using l(1) d(1) t(1) by simp
  moreover have "l \<noteq> []" "d \<noteq> []" "t \<noteq> []" using l(2) d(2) t(2) by auto
  ultimately show ?thesis using l(3) d(3) t(3) by blast
qed

lemma email_complete:
  assumes "l \<noteq> []" "\<forall>c\<in>set l. L c" "d \<noteq> []" "\<forall>c\<in>set d. D c" "t \<noteq> []" "\<forall>c\<in>set t. T c"
  shows "m_seq [Plus L, Lit 64, Plus D, Lit 46, Plus T] (b, l @ 64 # d @ 46 # t @ y) \<noteq> []"
proof -
  have len: "1 \<le> length l" "1 \<le> length d" "1 \<le> length t"
    using assms(1,3,5) by (simp_all add: Suc_le_eq)
  from rep_produces [OF assms(2) len(1)] obtain b2 where
    1: "(b2, 64 # d @ 46 # t @ y) \<in> set (rep L 1 None b (l @ 64 # d @ 46 # t @ y))" by blast
  from rep_produces [OF assms(4) len(2)] obtain b3 where
    2: "(b3, 46 # t @ y) \<in> set (rep D 1 None ((64::nat) = 10) (d @ 46 # t @ y))" by blast
  from rep_produces [OF assms(6) len(3)] obtain b4 where
    3: "(b4, y) \<in> set (rep T 1 None ((46::nat) = 10) (t @ y))" by blast
  from 1 2 3 have "(b4, y) \<in> set (m_seq [Plus L, Lit 64, Plus D, Lit 46, Plus T]
                                   (b, l @ 64 # d @ 46 # t @ y))"
    unfolding email_mem by blast
  then show ?thesis by (rule mem_nonempty)
qed

lemma email_glue:
  assumes DT: "\<forall>c. D c \<longrightarrow> T c" and dot: "T 46"
  shows "\<forall>s v. m_seq [Plus L, Lit 64, Plus D, Lit 46, Plus T] (True, s) \<noteq> [] \<longrightarrow>
           m_seq [Plus L, Lit 64, Plus D, Lit 46, Plus T]
             (True, v @ snd (hd (m_seq [Plus L, Lit 64, Plus D, Lit 46, Plus T] (True, s)))) \<noteq> [] \<longrightarrow>
           m_seq [Plus L, Lit 64, Plus D, Lit 46, Plus T] (True, v @ s) \<noteq> []"
proof (intro allI impI)
  fix s v
  let ?E = "[Plus L, Lit 64, Plus D, Lit 46, Plus T]"
  assume M: "m_seq ?E (True, s) \<noteq> []"
  define r where "r = snd (hd (m_seq ?E (True, s)))"
  assume "m_seq ?E (True, v @ snd (hd (m_seq ?E (True, s)))) \<noteq> []"
  then have N: "m_seq ?E (True, v @ r) \<noteq> []" by (simp add: r_def)
  have Q: "r = [] \<or> \<not> T (hd r)"
    unfolding r_def by (rule tail_first_rem [where T = T and lo = 1, OF _ _ M]) (simp_all add: Plus_def)
  from email_sound [OF hd_state_mem [OF M]] obtain l' d' t' where
    s: "s = l' @ 64 # d' @ 46 # t' @ r" and l': "l' \<noteq> []" "\<forall>c\<in>set l'. L c"
    and d': "d' \<noteq> []" "\<forall>c\<in>set d'. D c" and t': "t' \<noteq> []" "\<forall>c\<in>set t'. T c"
    unfolding r_def by blast
  define z where "z = snd (hd (m_seq ?E (True, v @ r)))"
  from email_sound [OF hd_state_mem [OF N]] obtain l d t where
    vr: "v @ r = l @ 64 # d @ 46 # t @ z" and l: "l \<noteq> []" "\<forall>c\<in>set l. L c"
    and d: "d \<noteq> []" "\<forall>c\<in>set d. D c" and t: "t \<noteq> []" "\<forall>c\<in>set t. T c"
    unfolding z_def by blast
  define w where "w = l @ 64 # d @ 46 # t"
  have vrw: "v @ r = w @ z" using vr by (simp add: w_def)
  show "m_seq ?E (True, v @ s) \<noteq> []"
  proof (cases "\<exists>us. v = w @ us")
    case True
    then obtain us where "v = w @ us" ..
    then have "v @ s = l @ 64 # d @ 46 # t @ (us @ s)" by (simp add: w_def)
    then show ?thesis using email_complete [OF l d t, of True "us @ s"] by simp
  next
    case False
    from vrw obtain us where "(v = w @ us \<and> us @ r = z) \<or> (v @ us = w \<and> r = us @ z)"
      unfolding append_eq_append_conv2 by blast
    with False have u: "v @ us = w" "r = us @ z" by auto
    with False have une: "us \<noteq> []" by auto
    then have "r \<noteq> []" "hd r = hd us" using u by auto
    with Q have nT: "\<not> T (hd us)" by auto
    from u(1) have "v @ us = l @ (64 # d @ 46 # t)" by (simp add: w_def)
    then obtain ws where
      "(v = l @ ws \<and> ws @ us = 64 # d @ 46 # t) \<or> (v @ ws = l \<and> us = ws @ 64 # d @ 46 # t)"
      unfolding append_eq_append_conv2 by blast
    then have "\<exists>ws. v @ ws = l"
    proof (elim disjE conjE)
      assume a: "v = l @ ws" "ws @ us = 64 # d @ 46 # t"
      show ?thesis
      proof (cases ws)
        case Nil
        with a show ?thesis by simp
      next
        case (Cons e ws')
        with a have "ws' @ us = d @ 46 # t" by simp
        moreover have "hd us \<in> set (ws' @ us)" using une by simp
        ultimately have "hd us \<in> set (d @ 46 # t)" by simp
        then have "T (hd us)" using DT dot d(2) t(2) by auto
        with nT show ?thesis by simp
      qed
    next
      assume "v @ ws = l"
      then show ?thesis by blast
    qed
    then obtain ws where ws: "v @ ws = l" ..
    have vL: "\<forall>c\<in>set v. L c" using ws l(2) by auto
    have 1: "v @ s = (v @ l') @ 64 # d' @ 46 # t' @ r" using s by simp
    have 2: "v @ l' \<noteq> []" "\<forall>c\<in>set (v @ l'). L c" using l' vL by auto
    show ?thesis unfolding 1 by (rule email_complete [OF 2 d' t'])
  qed
qed

lemma strip_emails_idem: "strip_emails U (strip_emails U t) = strip_emails U t"
proof -
  let ?E = "[Plus (is_local U), Lit 64, Plus (is_domain U), Lit 46, Plus (is_tld U)]"
  have af: "Bol \<notin> set ?E" "Eol \<notin> set ?E" by (simp_all add: Lit_def Plus_def)
  have dec: "\<forall>b1 r s. (b1, r) \<in> set (m_seq ?E (True, s)) \<longrightarrow> length r < length s"
    by (rule first_item_shorter [OF af, of "is_local U" 1 None]) (simp_all add: Plus_def)
  have glue: "\<forall>s v. m_seq ?E (True, s) \<noteq> [] \<longrightarrow>
           m_seq ?E (True, v @ snd (hd (m_seq ?E (True, s)))) \<noteq> [] \<longrightarrow>
           m_seq ?E (True, v @ s) \<noteq> []"
    by (rule email_glue) (simp_all add: is_domain_def is_tld_def)
  show ?thesis
    unfolding strip_emails_def pat_email_def by (rule strip_idem [OF af dec glue])
qed

subsection \<open>The stages applied twice\<close>

lemma phone_stage_twice:
  "strip_phones U (ustr ''1+11111(1111'') = ustr ''1(1111''"
  "strip_phones U (ustr ''1(1111'') = []"
  by (simp_all add: regex_eval clean_eval pat_phone1_def pat_phone2_def is_sep_def)

text \<open>
  Claim C8, for the stages for which it holds. The hashtag, mention, link, emoji and
  email stages are idempotent: applied to its own output, each of them changes nothing,
  whatever the text and the Unicode database. (The phone stage is not idempotent.)
\<close>

theorem cleaning_stages_idempotent:
  "strip_hashtags U (strip_hashtags U t) = strip_hashtags U t
   \<and> strip_mentions U (strip_mentions U t) = strip_mentions U t
   \<and> strip_links U (strip_links U t) = strip_links U t
   \<and> strip_emojis (strip_emojis t) = strip_emojis t
   \<and> strip_emails U (strip_emails U t) = strip_emails U t"
  by (simp add: strip_hashtags_def pat_hashtag_def strip_mentions_def pat_mention_def
      strip_emojis_def pat_emoji_def tag_idem class_idem strip_links_idem strip_emails_idem)

text \<open>
  Claim C8 as stated fails for the phone stage. On the text \<open>1+11111(1111\<close> the first
  application leaves \<open>1(1111\<close> (the first pattern removes \<open>+11111\<close>), and the second
  application removes that as well.
\<close>

theorem phone_stage_not_idempotent:
  "\<forall>U. strip_phones U (ustr ''1+11111(1111'') = ustr ''1(1111''
      \<and> strip_phones U (strip_phones U (ustr ''1+11111(1111''))
          \<noteq> strip_phones U (ustr ''1+11111(1111'')"
  by (simp add: phone_stage_twice) (simp add: ustr_def)

end
